theory Spec2Isabelle
  imports Main "HOL-Library.Signed_Division"
begin

section \<open>Cells (cell.h)\<close>

text \<open>
  \<^verbatim>\<open>enum class MarkState { None, Flag, Question }\<close>. The first constructor is
  written \<open>NoMark\<close>, since \<open>None\<close> is the constructor of \<open>option\<close>.
\<close>

datatype MarkState = NoMark | Flag | Question

text \<open>
  \<^verbatim>\<open>class Cell\<close>: three private fields, read and written by
  \<^verbatim>\<open>hasMine/setMine\<close>, \<^verbatim>\<open>isRevealed/setRevealed\<close> and
  \<^verbatim>\<open>markState/setMarkState\<close>. The getters are the record selectors, the setters
  the record updates.
\<close>

record Cell =
  m_hasMine :: bool
  m_revealed :: bool
  m_mark :: MarkState

text \<open>The default constructor \<^verbatim>\<open>Cell()\<close>: no mine, not revealed, no mark.\<close>

definition Cell_default :: Cell where
  "Cell_default = \<lparr>m_hasMine = False, m_revealed = False, m_mark = NoMark\<rparr>"

text \<open>\<^verbatim>\<open>Cell::reset\<close> assigns the three default values.\<close>

definition reset :: "Cell \<Rightarrow> Cell" where
  "reset c = c\<lparr>m_hasMine := False, m_revealed := False, m_mark := NoMark\<rparr>"

section \<open>The board (board.h, board.cpp)\<close>

text \<open>
  \<^verbatim>\<open>class Board\<close>: the dimensions, the number of mines and the grid
  \<^verbatim>\<open>QVector<QVector<Cell>> m_cells\<close>, indexed \<^verbatim>\<open>m_cells[row][col]\<close>.
  The C++ \<^verbatim>\<open>int\<close>s are modelled as \<open>int\<close>: every coordinate the program computes
  is a grid coordinate plus or minus one and every counter is bounded by the number of
  cells, so nothing wraps.
\<close>

record Board =
  m_width :: int
  m_height :: int
  m_mineCount :: int
  m_cells :: "Cell list list"

text \<open>
  What the source leaves undefined. The program has no \<^verbatim>\<open>throw\<close>, no
  \<^verbatim>\<open>assert\<close> and no error return: \<^verbatim>\<open>m_cells[row][col]\<close> is
  \<^verbatim>\<open>QVector::operator[]\<close>, which checks nothing in a release build (a debug build
  of Qt stops in \<^verbatim>\<open>Q_ASSERT\<close>), and \<^verbatim>\<open>%\<close> by zero is undefined as well.
  A result \<open>Inl u\<close> says that the call ran into undefined behaviour \<open>u\<close>;
  \<open>Inr x\<close> is a normal return.
\<close>

datatype undefined_behaviour = IndexOutOfRange | DivisionByZero

text \<open>
  The constructor \<^verbatim>\<open>Board::Board(width, height, mineCount)\<close>: \<^verbatim>\<open>m_cells\<close> is
  resized to \<^verbatim>\<open>m_height\<close> rows of \<^verbatim>\<open>m_width\<close> default cells (sizes are taken
  as given for non-negative dimensions).
\<close>

definition Board_new :: "int \<Rightarrow> int \<Rightarrow> int \<Rightarrow> Board" where
  "Board_new width height mineCount =
     \<lparr>m_width = width, m_height = height, m_mineCount = mineCount,
      m_cells = replicate (nat height) (replicate (nat width) Cell_default)\<rparr>"

text \<open>
  The class invariant the constructor establishes and that no method breaks (the grid is
  private and never resized again): \<^verbatim>\<open>m_height\<close> rows of \<^verbatim>\<open>m_width\<close> cells.
\<close>

definition Board_inv :: "Board \<Rightarrow> bool" where
  "Board_inv b =
     (0 \<le> m_width b \<and> 0 \<le> m_height b \<and> length (m_cells b) = nat (m_height b) \<and>
      list_all (\<lambda>line. length line = nat (m_width b)) (m_cells b))"

definition inBounds :: "Board \<Rightarrow> int \<Rightarrow> int \<Rightarrow> bool" where
  "inBounds b row col = (row \<ge> 0 \<and> row < m_height b \<and> col \<ge> 0 \<and> col < m_width b)"

text \<open>
  The expression \<^verbatim>\<open>m_cells[row][col]\<close>, read and written. Each of the two
  \<^verbatim>\<open>operator[]\<close> is defined only for an index inside the vector it is applied to;
  the source compares the index with nothing.
\<close>

definition cellAt :: "Board \<Rightarrow> int \<Rightarrow> int \<Rightarrow> undefined_behaviour + Cell" where
  "cellAt b row col =
     (if 0 \<le> row \<and> row < int (length (m_cells b)) then
        (let line = m_cells b ! nat row in
         if 0 \<le> col \<and> col < int (length line) then Inr (line ! nat col)
         else Inl IndexOutOfRange)
      else Inl IndexOutOfRange)"

definition updateCell :: "Board \<Rightarrow> int \<Rightarrow> int \<Rightarrow> (Cell \<Rightarrow> Cell) \<Rightarrow> undefined_behaviour + Board" where
  "updateCell b row col f =
     (if 0 \<le> row \<and> row < int (length (m_cells b)) then
        (let line = m_cells b ! nat row in
         if 0 \<le> col \<and> col < int (length line) then
           Inr (b\<lparr>m_cells := (m_cells b)[nat row := line[nat col := f (line ! nat col)]]\<rparr>)
         else Inl IndexOutOfRange)
      else Inl IndexOutOfRange)"

definition isMine :: "Board \<Rightarrow> int \<Rightarrow> int \<Rightarrow> undefined_behaviour + bool" where
  "isMine b row col = (case cellAt b row col of Inl u \<Rightarrow> Inl u | Inr x \<Rightarrow> Inr (m_hasMine x))"

definition setMine :: "Board \<Rightarrow> int \<Rightarrow> int \<Rightarrow> bool \<Rightarrow> undefined_behaviour + Board" where
  "setMine b row col mine = updateCell b row col (\<lambda>x. x\<lparr>m_hasMine := mine\<rparr>)"

definition isRevealed :: "Board \<Rightarrow> int \<Rightarrow> int \<Rightarrow> undefined_behaviour + bool" where
  "isRevealed b row col = (case cellAt b row col of Inl u \<Rightarrow> Inl u | Inr x \<Rightarrow> Inr (m_revealed x))"

definition setRevealed :: "Board \<Rightarrow> int \<Rightarrow> int \<Rightarrow> bool \<Rightarrow> undefined_behaviour + Board" where
  "setRevealed b row col r = updateCell b row col (\<lambda>x. x\<lparr>m_revealed := r\<rparr>)"

definition markState :: "Board \<Rightarrow> int \<Rightarrow> int \<Rightarrow> undefined_behaviour + MarkState" where
  "markState b row col = (case cellAt b row col of Inl u \<Rightarrow> Inl u | Inr x \<Rightarrow> Inr (m_mark x))"

definition setMarkState :: "Board \<Rightarrow> int \<Rightarrow> int \<Rightarrow> MarkState \<Rightarrow> undefined_behaviour + Board" where
  "setMarkState b row col state = updateCell b row col (\<lambda>x. x\<lparr>m_mark := state\<rparr>)"

text \<open>
  The pairs \<^verbatim>\<open>(dr, dc)\<close> in the order in which
  \<^verbatim>\<open>for (dr = -1; dr <= 1; ++dr) for (dc = -1; dc <= 1; ++dc)\<close> reaches them, the
  pair \<^verbatim>\<open>(0, 0)\<close> skipped by \<^verbatim>\<open>continue\<close>.
\<close>

definition offsets :: "(int \<times> int) list" where
  "offsets = [(dr, dc). dr \<leftarrow> [-1, 0, 1], dc \<leftarrow> [-1, 0, 1], \<not> (dr = 0 \<and> dc = 0)]"

text \<open>
  \<^verbatim>\<open>Board::neighborMineCount\<close>: the loop body, for the offsets still to come and
  the counter so far. \<^verbatim>\<open>&&\<close> reads the cell only when \<^verbatim>\<open>inBounds\<close> holds.
\<close>

fun countLoop :: "Board \<Rightarrow> int \<Rightarrow> int \<Rightarrow> (int \<times> int) list \<Rightarrow> int \<Rightarrow> undefined_behaviour + int" where
  "countLoop b row col [] count = Inr count"
| "countLoop b row col ((dr, dc) # ds) count =
     (let rr = row + dr; cc = col + dc in
      if inBounds b rr cc then
        (case isMine b rr cc of
           Inl u \<Rightarrow> Inl u
         | Inr mine \<Rightarrow> countLoop b row col ds (if mine then count + 1 else count))
      else countLoop b row col ds count)"

definition neighborMineCount :: "Board \<Rightarrow> int \<Rightarrow> int \<Rightarrow> undefined_behaviour + int" where
  "neighborMineCount b row col = countLoop b row col offsets 0"

text \<open>
  The cells in the order in which
  \<^verbatim>\<open>for (r = 0; r < m_height; ++r) for (c = 0; c < m_width; ++c)\<close> reaches them.
  The window's loops run over \<^verbatim>\<open>m_rows\<close> and \<^verbatim>\<open>m_cols\<close>, which its constructor
  passes to the board as \<^verbatim>\<open>height\<close> and \<^verbatim>\<open>width\<close>, so they reach the same
  cells.
\<close>

definition cellsInOrder :: "Board \<Rightarrow> (int \<times> int) list" where
  "cellsInOrder b = [(r, c). r \<leftarrow> [0..m_height b - 1], c \<leftarrow> [0..m_width b - 1]]"

text \<open>
  \<^verbatim>\<open>Board::allNonMinesRevealed\<close>: the first cell that is neither mined nor revealed
  ends the scan with \<^verbatim>\<open>false\<close>.
\<close>

fun scanLoop :: "Board \<Rightarrow> (int \<times> int) list \<Rightarrow> undefined_behaviour + bool" where
  "scanLoop b [] = Inr True"
| "scanLoop b ((r, c) # rest) =
     (case cellAt b r c of
        Inl u \<Rightarrow> Inl u
      | Inr x \<Rightarrow> if \<not> m_hasMine x \<and> \<not> m_revealed x then Inr False else scanLoop b rest)"

definition allNonMinesRevealed :: "Board \<Rightarrow> undefined_behaviour + bool" where
  "allNonMinesRevealed b = scanLoop b (cellsInOrder b)"

definition isClearedCell :: "Board \<Rightarrow> int \<Rightarrow> int \<Rightarrow> undefined_behaviour + bool" where
  "isClearedCell b row col =
     (if \<not> inBounds b row col then Inr False
      else (case isRevealed b row col of
              Inl u \<Rightarrow> Inl u
            | Inr shown \<Rightarrow>
                if \<not> shown then Inr False
                else (case neighborMineCount b row col of
                        Inl u \<Rightarrow> Inl u
                      | Inr n \<Rightarrow> Inr (n = 0))))"

subsection \<open>Board::initialize\<close>

text \<open>Step 1 of \<^verbatim>\<open>initialize\<close>: every cell is reset.\<close>

fun resetLoop :: "Board \<Rightarrow> (int \<times> int) list \<Rightarrow> undefined_behaviour + Board" where
  "resetLoop b [] = Inr b"
| "resetLoop b ((r, c) # rest) =
     (case updateCell b r c reset of
        Inl u \<Rightarrow> Inl u
      | Inr b' \<Rightarrow> resetLoop b' rest)"

text \<open>
  Step 2: \<^verbatim>\<open>while (placed < m_mineCount)\<close>. The generator is seeded from the clock,
  so the numbers \<^verbatim>\<open>std::rand()\<close> returns are an input of the model: \<open>rnd k\<close> is
  the result of the \<open>k\<close>-th call after \<^verbatim>\<open>std::srand\<close> (never negative), and \<open>k\<close>
  counts the calls made so far. \<^verbatim>\<open>%\<close> is the truncating remainder \<open>smod\<close>. The loop
  has no bound: \<open>None\<close> is a run that never leaves it.
\<close>

partial_function (option) placeLoop ::
  "(nat \<Rightarrow> nat) \<Rightarrow> nat \<Rightarrow> int \<Rightarrow> Board \<Rightarrow> (undefined_behaviour + Board) option" where
  "placeLoop rnd k placed b =
     (if placed < m_mineCount b then
        (if m_height b = 0 then Some (Inl DivisionByZero)
         else if m_width b = 0 then Some (Inl DivisionByZero)
         else
           (let rr = int (rnd k) smod m_height b;
                cc = int (rnd (k + 1)) smod m_width b in
            case cellAt b rr cc of
              Inl u \<Rightarrow> Some (Inl u)
            | Inr x \<Rightarrow>
                if \<not> m_hasMine x then
                  (case setMine b rr cc True of
                     Inl u \<Rightarrow> Some (Inl u)
                   | Inr b' \<Rightarrow> placeLoop rnd (k + 2) (placed + 1) b')
                else placeLoop rnd (k + 2) placed b))
      else Some (Inr b))"

declare placeLoop.simps [code]

definition initialize :: "Board \<Rightarrow> (nat \<Rightarrow> nat) \<Rightarrow> (undefined_behaviour + Board) option" where
  "initialize b rnd =
     (case resetLoop b (cellsInOrder b) of
        Inl u \<Rightarrow> Some (Inl u)
      | Inr b' \<Rightarrow> placeLoop rnd 0 0 b')"

section \<open>The window (minesweeperwindow.h, minesweeperwindow.cpp)\<close>

text \<open>
  Of the window only what it does to the board is modelled; the buttons show the board
  and store nothing else (\<^verbatim>\<open>updateButtonAppearance\<close> reads the cell it is given, always
  one the caller has just read or written). A button is identified with its position.

  \<^verbatim>\<open>struct Point { int r; int c; }\<close> is a pair.
\<close>

type_synonym Point = "int \<times> int"

text \<open>
  What a click leads to: \<open>Loss\<close> when \<^verbatim>\<open>gameOver(false)\<close> is called, \<open>Win\<close> when
  \<^verbatim>\<open>gameOver(true)\<close> is called, \<open>Continue\<close> when the handler returns without calling
  \<^verbatim>\<open>gameOver\<close>.
\<close>

datatype Outcome = Continue | Win | Loss

text \<open>
  The history of one cascade: \<open>Revealed\<close> for each call of \<^verbatim>\<open>setRevealed\<close> (each is
  followed by \<^verbatim>\<open>updateButtonAppearance\<close>, so this is also the sequence of buttons
  redrawn), \<open>Pushed\<close> for each \<^verbatim>\<open>q.push\<close>. The loop appends to it and never reads
  it.
\<close>

datatype event = Revealed Point | Pushed Point

text \<open>
  \<^verbatim>\<open>MinesweeperWindow::eventFilter\<close> for a press of the right button on the button at
  \<open>(r, c)\<close>: the two loops find the button among \<^verbatim>\<open>m_buttons\<close>, the
  \<^verbatim>\<open>switch\<close> advances the mark. Any other object or event changes nothing. The
  handler does not ask whether the cell is revealed.
\<close>

definition eventFilter :: "Board \<Rightarrow> int \<Rightarrow> int \<Rightarrow> undefined_behaviour + Board" where
  "eventFilter b r c =
     (if inBounds b r c then
        (case markState b r c of
           Inl u \<Rightarrow> Inl u
         | Inr st \<Rightarrow>
             (case st of
                NoMark \<Rightarrow> setMarkState b r c Flag
              | Flag \<Rightarrow> setMarkState b r c Question
              | Question \<Rightarrow> setMarkState b r c NoMark))
      else Inr b)"

text \<open>
  \<^verbatim>\<open>MinesweeperWindow::gameOver\<close> up to the message box: after a loss every mined
  cell is revealed. The answer to the box then starts a new round (\<^verbatim>\<open>resetGame\<close>,
  that is \<open>initialize\<close>) or closes the window.
\<close>

fun showMinesLoop :: "Board \<Rightarrow> (int \<times> int) list \<Rightarrow> undefined_behaviour + Board" where
  "showMinesLoop b [] = Inr b"
| "showMinesLoop b ((r, c) # rest) =
     (case isMine b r c of
        Inl u \<Rightarrow> Inl u
      | Inr mine \<Rightarrow>
          if mine then
            (case setRevealed b r c True of
               Inl u \<Rightarrow> Inl u
             | Inr b' \<Rightarrow> showMinesLoop b' rest)
          else showMinesLoop b rest)"

definition gameOver :: "bool \<Rightarrow> Board \<Rightarrow> undefined_behaviour + Board" where
  "gameOver won b = (if \<not> won then showMinesLoop b (cellsInOrder b) else Inr b)"

definition checkWinCondition :: "Board \<Rightarrow> undefined_behaviour + Outcome \<times> Board" where
  "checkWinCondition b =
     (case allNonMinesRevealed b of
        Inl u \<Rightarrow> Inl u
      | Inr won \<Rightarrow>
          if won then
            (case gameOver True b of Inl u \<Rightarrow> Inl u | Inr b' \<Rightarrow> Inr (Win, b'))
          else Inr (Continue, b))"

text \<open>
  \<^verbatim>\<open>MinesweeperWindow::cascadeReveal\<close>, the two \<^verbatim>\<open>for\<close> loops around the point
  \<open>p\<close> just taken from the queue: the state is the queue, the board and the history.
\<close>

fun neighborLoop ::
  "Point \<Rightarrow> (int \<times> int) list \<Rightarrow> Point list \<times> Board \<times> event list \<Rightarrow>
   undefined_behaviour + Point list \<times> Board \<times> event list" where
  "neighborLoop p [] s = Inr s"
| "neighborLoop p ((dr, dc) # ds) (q, b, tr) =
     (let rr = fst p + dr; cc = snd p + dc in
      if \<not> inBounds b rr cc then neighborLoop p ds (q, b, tr)
      else
        (case isRevealed b rr cc of
           Inl u \<Rightarrow> Inl u
         | Inr shown \<Rightarrow>
             if shown then neighborLoop p ds (q, b, tr)
             else
               (case markState b rr cc of
                  Inl u \<Rightarrow> Inl u
                | Inr st \<Rightarrow>
                    if st = Flag then neighborLoop p ds (q, b, tr)
                    else
                      (case setRevealed b rr cc True of
                         Inl u \<Rightarrow> Inl u
                       | Inr b' \<Rightarrow>
                           (case neighborMineCount b' rr cc of
                              Inl u \<Rightarrow> Inl u
                            | Inr n \<Rightarrow>
                                if n = 0 then
                                  neighborLoop p ds
                                    (q @ [(rr, cc)], b',
                                     tr @ [Revealed (rr, cc), Pushed (rr, cc)])
                                else
                                  neighborLoop p ds (q, b', tr @ [Revealed (rr, cc)]))))))"

text \<open>The number of cells of the grid that are not revealed.\<close>

definition hiddenCount :: "Board \<Rightarrow> nat" where
  "hiddenCount b = sum_list (map (\<lambda>line. length (filter (\<lambda>x. \<not> m_revealed x) line)) (m_cells b))"

text \<open>\<^verbatim>\<open>while (!q.empty())\<close>: the front of the queue is taken off and expanded.\<close>

function cascadeLoop ::
  "Point list \<times> Board \<times> event list \<Rightarrow> undefined_behaviour + Board \<times> event list" where
  "cascadeLoop ([], b, tr) = Inr (b, tr)"
| "cascadeLoop (p # q, b, tr) =
     (case neighborLoop p offsets (q, b, tr) of
        Inl u \<Rightarrow> Inl u
      | Inr s \<Rightarrow> cascadeLoop s)"
  by pat_completeness auto

text \<open>
  Termination: no step lengthens the queue by more cells than it reveals, and it takes one
  point off the queue.
\<close>

termination cascadeLoop
proof (relation "measure (\<lambda>(q, b, tr). length q + hiddenCount b)")
  show "wf (measure (\<lambda>(q, b, tr). length q + hiddenCount b))" by simp
next
  fix p :: Point and q :: "Point list" and b :: Board and tr :: "event list"
    and s :: "Point list \<times> Board \<times> event list"
  assume run: "neighborLoop p offsets (q, b, tr) = Inr s"
  have line: "Suc (length (filter (\<lambda>x. \<not> m_revealed x) (xs[i := y]))) =
      length (filter (\<lambda>x. \<not> m_revealed x) xs)"
    if "i < length xs" "\<not> m_revealed (xs ! i)" "m_revealed y" for xs :: "Cell list" and i y
    using that by (induction xs arbitrary: i) (auto split: nat.splits)
  have grid: "Suc (sum_list (map f (xss[i := ys]))) = sum_list (map f xss)"
    if "i < length xss" "Suc (f ys) = f (xss ! i)" for xss :: "Cell list list" and i ys
      and f :: "Cell list \<Rightarrow> nat"
    using that by (induction xss arbitrary: i) (auto split: nat.splits)
  have reveal: "Suc (hiddenCount b2) = hiddenCount b1"
    if "isRevealed b1 r c = Inr False" "setRevealed b1 r c True = Inr b2" for b1 b2 r c
    using that
    by (auto simp: isRevealed_def setRevealed_def cellAt_def updateCell_def hiddenCount_def
        Let_def line grid split: if_splits)
  have loop: "length (fst s') + hiddenCount (fst (snd s')) \<le> length q' + hiddenCount b'"
    if "neighborLoop p ds (q', b', tr') = Inr s'" for ds q' b' tr' s'
    using that
  proof (induction ds arbitrary: q' b' tr')
    case Nil
    then show ?case by auto
  next
    case (Cons d ds)
    obtain dr dc where d: "d = (dr, dc)" by (cases d)
    show ?case
      using Cons.prems Cons.IH reveal
      by (fastforce simp: d Let_def split: if_splits sum.splits)
  qed
  from loop [OF run]
  show "(s, p # q, b, tr) \<in> measure (\<lambda>(q, b, tr). length q + hiddenCount b)"
    by (cases s) auto
qed

definition cascadeReveal :: "Board \<Rightarrow> int \<Rightarrow> int \<Rightarrow> undefined_behaviour + Board \<times> event list" where
  "cascadeReveal b startRow startCol =
     cascadeLoop ([(startRow, startCol)], b, [Pushed (startRow, startCol)])"

text \<open>
  \<^verbatim>\<open>MinesweeperWindow::revealCell\<close>. A mine is revealed and ends the game through
  \<^verbatim>\<open>gameOver(false)\<close>; any other cell is revealed, starts the cascade when no
  neighbour is mined, and \<^verbatim>\<open>checkWinCondition\<close> decides between \<open>Win\<close> and
  \<open>Continue\<close>.
\<close>

definition revealCell :: "Board \<Rightarrow> int \<Rightarrow> int \<Rightarrow> undefined_behaviour + Outcome \<times> Board" where
  "revealCell b row col =
     (case isMine b row col of
        Inl u \<Rightarrow> Inl u
      | Inr mine \<Rightarrow>
          if mine then
            (case setRevealed b row col True of
               Inl u \<Rightarrow> Inl u
             | Inr b1 \<Rightarrow>
                 (case gameOver False b1 of Inl u \<Rightarrow> Inl u | Inr b2 \<Rightarrow> Inr (Loss, b2)))
          else
            (case setRevealed b row col True of
               Inl u \<Rightarrow> Inl u
             | Inr b1 \<Rightarrow>
                 (case neighborMineCount b1 row col of
                    Inl u \<Rightarrow> Inl u
                  | Inr n \<Rightarrow>
                      if n = 0 then
                        (case cascadeReveal b1 row col of
                           Inl u \<Rightarrow> Inl u
                         | Inr (b2, tr) \<Rightarrow> checkWinCondition b2)
                      else checkWinCondition b1)))"

text \<open>
  \<^verbatim>\<open>MinesweeperWindow::onCellLeftClicked\<close> for the button at \<open>(row, col)\<close>: a cell
  that is revealed or flagged is left alone. \<^verbatim>\<open>||\<close> reads the mark only of a
  hidden cell.
\<close>

definition onCellLeftClicked :: "Board \<Rightarrow> int \<Rightarrow> int \<Rightarrow> undefined_behaviour + Outcome \<times> Board" where
  "onCellLeftClicked b row col =
     (case isRevealed b row col of
        Inl u \<Rightarrow> Inl u
      | Inr shown \<Rightarrow>
          if shown then Inr (Continue, b)
          else
            (case markState b row col of
               Inl u \<Rightarrow> Inl u
             | Inr st \<Rightarrow>
                 if st = Flag then Inr (Continue, b)
                 else revealCell b row col))"

section \<open>Notions of the specification\<close>

text \<open>
  The mined cells of the grid at Chebyshev distance exactly 1 from \<open>(row, col)\<close>, in the
  words of the specification of \<^verbatim>\<open>neighbor_mine_count\<close>.
\<close>

definition minedNeighbours :: "Board \<Rightarrow> int \<Rightarrow> int \<Rightarrow> (int \<times> int) set" where
  "minedNeighbours b row col =
     {(r, c). inBounds b r c \<and> max \<bar>r - row\<bar> \<bar>c - col\<bar> = 1 \<and> isMine b r c = Inr True}"

text \<open>The 3-cycle of marks of the specification: None, Flag, Question, None.\<close>

fun nextMark :: "MarkState \<Rightarrow> MarkState" where
  "nextMark NoMark = Flag"
| "nextMark Flag = Question"
| "nextMark Question = NoMark"

text \<open>Two points are neighbours when their Chebyshev distance is 1.\<close>

definition adjacent :: "Point \<Rightarrow> Point \<Rightarrow> bool" where
  "adjacent p c = (max \<bar>fst c - fst p\<bar> \<bar>snd c - snd p\<bar> = 1)"

text \<open>
  How far a cascade from \<open>t\<close> spreads on the board \<open>b\<close>: from \<open>t\<close>, and from a point
  reached to each neighbour in the grid that is hidden, not flagged and has no mined
  neighbour. These are the points that enter the queue.
\<close>

inductive spreads :: "Board \<Rightarrow> Point \<Rightarrow> Point \<Rightarrow> bool" for b :: Board and t :: Point where
  start: "spreads b t t"
| step: "spreads b t p \<Longrightarrow> adjacent p c \<Longrightarrow> inBounds b (fst c) (snd c) \<Longrightarrow>
         isRevealed b (fst c) (snd c) = Inr False \<Longrightarrow> markState b (fst c) (snd c) \<noteq> Inr Flag \<Longrightarrow>
         neighborMineCount b (fst c) (snd c) = Inr 0 \<Longrightarrow> spreads b t c"

text \<open>
  The connected zero-count region of the specification: the cells linked to \<open>t\<close> by a
  chain of neighbours in the grid that have no mined neighbour, whatever their marks.
\<close>

inductive zeroRegion :: "Board \<Rightarrow> Point \<Rightarrow> Point \<Rightarrow> bool" for b :: Board and t :: Point where
  start: "zeroRegion b t t"
| step: "zeroRegion b t p \<Longrightarrow> adjacent p c \<Longrightarrow> inBounds b (fst c) (snd c) \<Longrightarrow>
         neighborMineCount b (fst c) (snd c) = Inr 0 \<Longrightarrow> zeroRegion b t c"

section \<open>Views of the board and invariants of the loops\<close>

text \<open>
  The cell at a point (the default cell outside the grid),
  the board with one cell replaced, the board with one cell revealed.
\<close>

definition cellOf :: "Board \<Rightarrow> Point \<Rightarrow> Cell" where
  "cellOf b p =
     (if inBounds b (fst p) (snd p) then m_cells b ! nat (fst p) ! nat (snd p) else Cell_default)"

definition withCell :: "Board \<Rightarrow> Point \<Rightarrow> Cell \<Rightarrow> Board" where
  "withCell b p x =
     b\<lparr>m_cells := (m_cells b)[nat (fst p) := (m_cells b ! nat (fst p))[nat (snd p) := x]]\<rparr>"

definition revealAt :: "Board \<Rightarrow> Point \<Rightarrow> Board" where
  "revealAt b p = withCell b p ((cellOf b p)\<lparr>m_revealed := True\<rparr>)"

text \<open>
  \<open>grownFrom b0 b\<close>: the board \<open>b\<close> is \<open>b0\<close> with more cells revealed and nothing else
  changed.
\<close>

definition grownFrom :: "Board \<Rightarrow> Board \<Rightarrow> bool" where
  "grownFrom b0 b =
     (Board_inv b \<and> m_width b = m_width b0 \<and> m_height b = m_height b0 \<and>
      m_mineCount b = m_mineCount b0 \<and>
      (\<forall>p. m_hasMine (cellOf b p) = m_hasMine (cellOf b0 p) \<and>
           m_mark (cellOf b p) = m_mark (cellOf b0 p) \<and>
           (m_revealed (cellOf b0 p) \<longrightarrow> m_revealed (cellOf b p))))"

text \<open>The mined cells of a board.\<close>

definition mineSet :: "Board \<Rightarrow> Point set" where
  "mineSet b = {p. m_hasMine (cellOf b p)}"

text \<open>
  What the placing loop guarantees when it returns \<open>y\<close>, entered with \<open>placed\<close> mines
  on the board \<open>b\<close>: \<open>y\<close> is a board with \<^verbatim>\<open>m_mineCount\<close> mines that differs
  from \<open>b\<close> in mines only.
\<close>

definition placePost :: "int \<Rightarrow> Board \<Rightarrow> undefined_behaviour + Board \<Rightarrow> bool" where
  "placePost placed b y =
     (Board_inv b \<longrightarrow> 0 < m_width b \<longrightarrow> 0 < m_height b \<longrightarrow>
      int (card (mineSet b)) = placed \<longrightarrow> placed \<le> m_mineCount b \<longrightarrow>
      (\<exists>b'. y = Inr b' \<and> Board_inv b' \<and> m_width b' = m_width b \<and> m_height b' = m_height b \<and>
         m_mineCount b' = m_mineCount b \<and> int (card (mineSet b')) = m_mineCount b \<and>
         (\<forall>p. m_revealed (cellOf b' p) = m_revealed (cellOf b p) \<and>
              m_mark (cellOf b' p) = m_mark (cellOf b p))))"

text \<open>
  One pass through the body of the two \<^verbatim>\<open>for\<close> loops of \<^verbatim>\<open>cascadeReveal\<close> on a
  well-formed board, where no access can fail: \<open>neighborLoop_visit\<close> below shows that
  \<open>neighborLoop\<close> folds it over the offsets.
\<close>

definition visit ::
  "Point \<Rightarrow> Point list \<times> Board \<times> event list \<Rightarrow> int \<times> int \<Rightarrow> Point list \<times> Board \<times> event list" where
  "visit p s d =
     (case s of (q, b, tr) \<Rightarrow>
        (let c = (fst p + fst d, snd p + snd d) in
         if inBounds b (fst c) (snd c) \<and> \<not> m_revealed (cellOf b c) \<and> m_mark (cellOf b c) \<noteq> Flag
         then
           (if neighborMineCount (revealAt b c) (fst c) (snd c) = Inr 0
            then (q @ [c], revealAt b c, tr @ [Revealed c, Pushed c])
            else (q, revealAt b c, tr @ [Revealed c]))
         else (q, b, tr)))"

text \<open>
  The invariant of the cascade for its history: the history has no event twice, every
  cell in it is revealed, and the cells revealed are those that were revealed on \<open>b1\<close>,
  the board the cascade started on, and those logged as \<open>Revealed\<close>.
\<close>

definition traceInv :: "Board \<Rightarrow> Point \<Rightarrow> Point list \<times> Board \<times> event list \<Rightarrow> bool" where
  "traceInv b1 t s =
     (case s of (q, b, tr) \<Rightarrow>
        Board_inv b \<and> distinct tr \<and> Pushed t \<in> set tr \<and>
        (\<forall>x. Revealed x \<in> set tr \<or> Pushed x \<in> set tr \<longrightarrow> m_revealed (cellOf b x)) \<and>
        (\<forall>x. m_revealed (cellOf b x) = (m_revealed (cellOf b1 x) \<or> Revealed x \<in> set tr)))"

text \<open>
  The invariant of the cascade for mines: every point in the queue has no mined
  neighbour, and no cell revealed since the start \<open>b1\<close> is mined.
\<close>

definition safeInv :: "Board \<Rightarrow> Point list \<times> Board \<times> event list \<Rightarrow> bool" where
  "safeInv b1 s =
     (case s of (q, b, tr) \<Rightarrow>
        grownFrom b1 b \<and>
        (\<forall>x \<in> set q. neighborMineCount b1 (fst x) (snd x) = Inr 0) \<and>
        (\<forall>x. m_revealed (cellOf b x) \<and> \<not> m_revealed (cellOf b1 x) \<longrightarrow> \<not> m_hasMine (cellOf b1 x)))"

text \<open>
  The invariants of the cascade started at \<open>t\<close> on the board \<open>b1\<close>. Sound: the queue
  holds points the cascade spreads to, and a cell revealed since is an unflagged neighbour
  of such a point. Complete: \<open>t\<close> and every cell revealed since that has no mined
  neighbour is in the queue or has all its unflagged neighbours revealed.
\<close>

definition soundInv :: "Board \<Rightarrow> Point \<Rightarrow> Point list \<times> Board \<times> event list \<Rightarrow> bool" where
  "soundInv b1 t s =
     (case s of (q, b, tr) \<Rightarrow>
        grownFrom b1 b \<and> (\<forall>x \<in> set q. spreads b1 t x) \<and>
        (\<forall>x. m_revealed (cellOf b x) \<longrightarrow>
           m_revealed (cellOf b1 x) \<or>
           inBounds b1 (fst x) (snd x) \<and> m_mark (cellOf b1 x) \<noteq> Flag \<and>
           (\<exists>y. spreads b1 t y \<and> adjacent y x)))"

definition saturated :: "Board \<Rightarrow> Board \<Rightarrow> Point \<Rightarrow> bool" where
  "saturated b1 b x =
     (\<forall>d \<in> set offsets.
        inBounds b1 (fst x + fst d) (snd x + snd d) \<and>
        m_mark (cellOf b1 (fst x + fst d, snd x + snd d)) \<noteq> Flag \<longrightarrow>
        m_revealed (cellOf b (fst x + fst d, snd x + snd d)))"

definition fullInv :: "Board \<Rightarrow> Point \<Rightarrow> Point list \<times> Board \<times> event list \<Rightarrow> bool" where
  "fullInv b1 t s =
     (case s of (q, b, tr) \<Rightarrow>
        grownFrom b1 b \<and>
        (\<forall>x. x = t \<or>
             inBounds b1 (fst x) (snd x) \<and> m_revealed (cellOf b x) \<and> \<not> m_revealed (cellOf b1 x) \<and>
             neighborMineCount b1 (fst x) (snd x) = Inr 0 \<longrightarrow>
           x \<in> set q \<or> saturated b1 b x))"

section \<open>Example boards\<close>

definition hiddenCell :: "bool \<Rightarrow> Cell" where
  "hiddenCell mine = \<lparr>m_hasMine = mine, m_revealed = False, m_mark = NoMark\<rparr>"

definition shownCell :: "bool \<Rightarrow> Cell" where
  "shownCell mine = \<lparr>m_hasMine = mine, m_revealed = True, m_mark = NoMark\<rparr>"

definition markedCell :: "bool \<Rightarrow> MarkState \<Rightarrow> Cell" where
  "markedCell mine st = \<lparr>m_hasMine = mine, m_revealed = False, m_mark = st\<rparr>"

text \<open>The 3 x 3 board of the specification's test: one mine, in the centre.\<close>

definition board3x3 :: Board where
  "board3x3 = \<lparr>m_width = 3, m_height = 3, m_mineCount = 1,
     m_cells = [[hiddenCell False, hiddenCell False, hiddenCell False],
                [hiddenCell False, hiddenCell True, hiddenCell False],
                [hiddenCell False, hiddenCell False, hiddenCell False]]\<rparr>"

text \<open>The 3 x 3 board after its corner \<open>(0, 0)\<close> has been revealed.\<close>

definition board3x3shown :: Board where
  "board3x3shown = \<lparr>m_width = 3, m_height = 3, m_mineCount = 1,
     m_cells = [[shownCell False, hiddenCell False, hiddenCell False],
                [hiddenCell False, hiddenCell True, hiddenCell False],
                [hiddenCell False, hiddenCell False, hiddenCell False]]\<rparr>"

text \<open>
  A 3 x 3 board with its mine in the corner \<open>(2, 2)\<close>, a question mark on \<open>(1, 1)\<close> and
  a flag on \<open>(1, 2)\<close>.
\<close>

definition board3x3marks :: Board where
  "board3x3marks = \<lparr>m_width = 3, m_height = 3, m_mineCount = 1,
     m_cells = [[hiddenCell False, hiddenCell False, hiddenCell False],
                [hiddenCell False, markedCell False Question, markedCell False Flag],
                [hiddenCell False, hiddenCell False, hiddenCell True]]\<rparr>"

text \<open>The 1 x 3 board of the specification's scenario: one mine, in column 2.\<close>

definition board1x3 :: Board where
  "board1x3 = \<lparr>m_width = 3, m_height = 1, m_mineCount = 1,
     m_cells = [[hiddenCell False, hiddenCell False, hiddenCell True]]\<rparr>"

text \<open>A 1 x 3 board with mines in columns 0 and 2.\<close>

definition board1x3twoMines :: Board where
  "board1x3twoMines = \<lparr>m_width = 3, m_height = 1, m_mineCount = 2,
     m_cells = [[hiddenCell True, hiddenCell False, hiddenCell True]]\<rparr>"

text \<open>A 1 x 5 board without mines; the player has flagged column 2.\<close>

definition board1x5flag :: Board where
  "board1x5flag = \<lparr>m_width = 5, m_height = 1, m_mineCount = 0,
     m_cells = [[hiddenCell False, hiddenCell False, markedCell False Flag, hiddenCell False,
                 hiddenCell False]]\<rparr>"

text \<open>A 2 x 2 board without mines.\<close>

definition board2x2 :: Board where
  "board2x2 = \<lparr>m_width = 2, m_height = 2, m_mineCount = 0,
     m_cells = [[hiddenCell False, hiddenCell False], [hiddenCell False, hiddenCell False]]\<rparr>"

text \<open>
  A 2 x 2 board in the middle of a round: mines at \<open>(0, 1)\<close> and \<open>(1, 0)\<close>, one cell
  revealed, one flagged.
\<close>

definition board2x2played :: Board where
  "board2x2played = \<lparr>m_width = 2, m_height = 2, m_mineCount = 2,
     m_cells = [[shownCell False, markedCell True Flag], [hiddenCell True, hiddenCell False]]\<rparr>"

section \<open>Properties\<close>

subsection \<open>The offsets and the cells of a well-formed board\<close>

lemma offsets_eq: "offsets = [(-1,-1),(-1,0),(-1,1),(0,-1),(0,1),(1,-1),(1,0),(1,1)]"
  by (simp add: offsets_def)

lemma offsets_distinct: "distinct offsets"
  by (simp add: offsets_eq)

lemma offsets_length: "length offsets = 8"
  by (simp add: offsets_eq)

lemma offsets_set: "(dr, dc) \<in> set offsets \<longleftrightarrow> max \<bar>dr\<bar> \<bar>dc\<bar> = 1"
proof -
  have "max \<bar>dr\<bar> \<bar>dc\<bar> = 1 \<longleftrightarrow>
      (dr = -1 \<or> dr = 0 \<or> dr = 1) \<and> (dc = -1 \<or> dc = 0 \<or> dc = 1) \<and> \<not> (dr = 0 \<and> dc = 0)"
    by (cases "\<bar>dr\<bar> \<le> \<bar>dc\<bar>") (simp_all add: max_def, arith+)
  then show ?thesis
    unfolding offsets_eq by auto
qed

lemma cellAt_inBounds:
  "Board_inv b \<Longrightarrow> inBounds b r c \<Longrightarrow> cellAt b r c = Inr (m_cells b ! nat r ! nat c)"
  by (auto simp: Board_inv_def inBounds_def cellAt_def Let_def list_all_length)

lemma cellAt_outside:
  "Board_inv b \<Longrightarrow> \<not> inBounds b r c \<Longrightarrow> cellAt b r c = Inl IndexOutOfRange"
  by (auto simp: Board_inv_def inBounds_def cellAt_def Let_def list_all_length)

lemma isMine_inBounds:
  "Board_inv b \<Longrightarrow> inBounds b r c \<Longrightarrow> isMine b r c = Inr (m_hasMine (m_cells b ! nat r ! nat c))"
  by (simp add: isMine_def cellAt_inBounds)

subsection \<open>neighborMineCount\<close>

lemma countLoop_filter:
  "Board_inv b \<Longrightarrow>
   countLoop b row col ds count =
     Inr (count + int (length (filter
       (\<lambda>(dr, dc). inBounds b (row + dr) (col + dc) \<and> isMine b (row + dr) (col + dc) = Inr True) ds)))"
proof (induction ds arbitrary: count)
  case Nil
  then show ?case by simp
next
  case (Cons d ds)
  obtain dr dc where d: "d = (dr, dc)" by (cases d)
  show ?case
    by (simp add: d Cons.IH [OF Cons.prems] Let_def isMine_inBounds [OF Cons.prems])
qed

lemma minedNeighbours_image:
  "minedNeighbours b row col =
     (\<lambda>(dr, dc). (row + dr, col + dc)) ` set (filter
       (\<lambda>(dr, dc). inBounds b (row + dr) (col + dc) \<and> isMine b (row + dr) (col + dc) = Inr True)
       offsets)"
proof -
  have "(r, c) \<in> minedNeighbours b row col \<longleftrightarrow>
      (r, c) \<in> (\<lambda>(dr, dc). (row + dr, col + dc)) ` set (filter
       (\<lambda>(dr, dc). inBounds b (row + dr) (col + dc) \<and> isMine b (row + dr) (col + dc) = Inr True)
       offsets)" for r c
  proof
    assume "(r, c) \<in> minedNeighbours b row col"
    then have "(r - row, c - col) \<in> set (filter
       (\<lambda>(dr, dc). inBounds b (row + dr) (col + dc) \<and> isMine b (row + dr) (col + dc) = Inr True)
       offsets)"
      by (simp add: minedNeighbours_def offsets_set)
    then show "(r, c) \<in> (\<lambda>(dr, dc). (row + dr, col + dc)) ` set (filter
       (\<lambda>(dr, dc). inBounds b (row + dr) (col + dc) \<and> isMine b (row + dr) (col + dc) = Inr True)
       offsets)"
      by force
  next
    assume "(r, c) \<in> (\<lambda>(dr, dc). (row + dr, col + dc)) ` set (filter
       (\<lambda>(dr, dc). inBounds b (row + dr) (col + dc) \<and> isMine b (row + dr) (col + dc) = Inr True)
       offsets)"
    then show "(r, c) \<in> minedNeighbours b row col"
      by (auto simp: minedNeighbours_def offsets_set)
  qed
  then show ?thesis by auto
qed

lemma minedNeighbours_card:
  "card (minedNeighbours b row col) =
     length (filter
       (\<lambda>(dr, dc). inBounds b (row + dr) (col + dc) \<and> isMine b (row + dr) (col + dc) = Inr True)
       offsets)"
proof -
  have inj: "inj_on (\<lambda>(dr, dc). (row + dr, col + dc)) A" for A :: "(int \<times> int) set"
    by (auto simp: inj_on_def)
  show ?thesis
    unfolding minedNeighbours_image card_image [OF inj]
    by (rule distinct_card) (simp add: offsets_distinct)
qed

text \<open>
  C7. On a board as the constructor builds it and for a cell of the grid,
  \<^verbatim>\<open>neighborMineCount\<close> returns the number of mined cells of the grid at Chebyshev
  distance exactly 1 from the cell (the cell itself is not among them), a number between
  0 and 8.
\<close>

theorem neighborMineCount_counts:
  assumes "Board_inv b" "inBounds b row col"
  shows "\<exists>n. neighborMineCount b row col = Inr n \<and>
             n = int (card (minedNeighbours b row col)) \<and> 0 \<le> n \<and> n \<le> 8"
proof -
  have "length (filter
       (\<lambda>(dr, dc). inBounds b (row + dr) (col + dc) \<and> isMine b (row + dr) (col + dc) = Inr True)
       offsets) \<le> 8"
    using length_filter_le [of _ offsets] by (simp add: offsets_length)
  then show ?thesis
    by (simp add: neighborMineCount_def countLoop_filter [OF assms(1)] minedNeighbours_card)
qed

text \<open>A corner of the 3 x 3 board with its mine in the centre has one mined neighbour.\<close>

theorem neighborMineCount_counts_witness:
  "Board_inv board3x3 \<and> inBounds board3x3 0 0 \<and>
   neighborMineCount board3x3 0 0 = Inr 1 \<and> card (minedNeighbours board3x3 0 0) = 1"
proof -
  have inv: "Board_inv board3x3" by code_simp
  have inb: "inBounds board3x3 0 0" by code_simp
  have run: "neighborMineCount board3x3 0 0 = Inr 1" by code_simp
  show ?thesis
    using neighborMineCount_counts [OF inv inb] inv inb run by simp
qed

subsection \<open>The class invariant and the views\<close>

lemma Board_new_inv:
  "0 \<le> width \<Longrightarrow> 0 \<le> height \<Longrightarrow> Board_inv (Board_new width height mineCount)"
  by (simp add: Board_new_def Board_inv_def list_all_length)

lemma cellAt_cellOf:
  "Board_inv b \<Longrightarrow> inBounds b r c \<Longrightarrow> cellAt b r c = Inr (cellOf b (r, c))"
  by (simp add: cellAt_inBounds cellOf_def)

lemma updateCell_withCell:
  "Board_inv b \<Longrightarrow> inBounds b r c \<Longrightarrow>
   updateCell b r c f = Inr (withCell b (r, c) (f (cellOf b (r, c))))"
  by (auto simp: Board_inv_def inBounds_def updateCell_def withCell_def cellOf_def Let_def
      list_all_length)

lemma updateCell_outside:
  "Board_inv b \<Longrightarrow> \<not> inBounds b r c \<Longrightarrow> updateCell b r c f = Inl IndexOutOfRange"
  by (auto simp: Board_inv_def inBounds_def updateCell_def Let_def list_all_length)

lemma withCell_fields [simp]:
  "m_width (withCell b p x) = m_width b"
  "m_height (withCell b p x) = m_height b"
  "m_mineCount (withCell b p x) = m_mineCount b"
  by (simp_all add: withCell_def)

lemma inBounds_withCell [simp]: "inBounds (withCell b p x) r c = inBounds b r c"
  by (simp add: inBounds_def)

lemma Board_inv_withCell: "Board_inv b \<Longrightarrow> Board_inv (withCell b p x)"
proof -
  assume inv: "Board_inv b"
  have "length ((m_cells b)[i := (m_cells b ! i)[j := x]] ! n) = nat (m_width b)"
    if "n < length (m_cells b)" for n i j
    using that inv by (cases "n = i") (simp_all add: Board_inv_def list_all_length)
  with inv show ?thesis
    by (simp add: Board_inv_def withCell_def list_all_length)
qed

lemma updateCell_inv: "Board_inv b \<Longrightarrow> updateCell b row col f = Inr b' \<Longrightarrow> Board_inv b'"
  by (cases "inBounds b row col")
    (auto simp: updateCell_withCell updateCell_outside Board_inv_withCell)

lemma cellOf_withCell:
  "Board_inv b \<Longrightarrow> inBounds b (fst p) (snd p) \<Longrightarrow>
   cellOf (withCell b p x) p' = (if p' = p then x else cellOf b p')"
  by (cases p; cases p')
    (auto simp: Board_inv_def inBounds_def cellOf_def withCell_def list_all_length
      nth_list_update nat_eq_iff)

lemma isMine_cellOf:
  "Board_inv b \<Longrightarrow> inBounds b r c \<Longrightarrow> isMine b r c = Inr (m_hasMine (cellOf b (r, c)))"
  by (simp add: isMine_def cellAt_cellOf)

lemma isRevealed_cellOf:
  "Board_inv b \<Longrightarrow> inBounds b r c \<Longrightarrow> isRevealed b r c = Inr (m_revealed (cellOf b (r, c)))"
  by (simp add: isRevealed_def cellAt_cellOf)

lemma markState_cellOf:
  "Board_inv b \<Longrightarrow> inBounds b r c \<Longrightarrow> markState b r c = Inr (m_mark (cellOf b (r, c)))"
  by (simp add: markState_def cellAt_cellOf)

lemma setRevealed_revealAt:
  "Board_inv b \<Longrightarrow> inBounds b r c \<Longrightarrow> setRevealed b r c True = Inr (revealAt b (r, c))"
  by (simp add: setRevealed_def updateCell_withCell revealAt_def)

lemma revealAt_fields [simp]:
  "m_width (revealAt b p) = m_width b"
  "m_height (revealAt b p) = m_height b"
  "m_mineCount (revealAt b p) = m_mineCount b"
  "inBounds (revealAt b p) r c = inBounds b r c"
  by (simp_all add: revealAt_def)

lemma Board_inv_revealAt: "Board_inv b \<Longrightarrow> Board_inv (revealAt b p)"
  by (simp add: revealAt_def Board_inv_withCell)

lemma cellOf_revealAt:
  "Board_inv b \<Longrightarrow> inBounds b (fst p) (snd p) \<Longrightarrow>
   cellOf (revealAt b p) p' = (if p' = p then (cellOf b p)\<lparr>m_revealed := True\<rparr> else cellOf b p')"
  by (simp add: revealAt_def cellOf_withCell)

lemma neighborMineCount_mines:
  assumes "Board_inv b" "Board_inv b'"
    and "m_width b' = m_width b" "m_height b' = m_height b"
    and "\<And>p. m_hasMine (cellOf b' p) = m_hasMine (cellOf b p)"
  shows "neighborMineCount b' r c = neighborMineCount b r c"
proof -
  have "(inBounds b' x y \<and> isMine b' x y = Inr True) = (inBounds b x y \<and> isMine b x y = Inr True)"
    for x y
    using assms by (auto simp: inBounds_def isMine_cellOf)
  then show ?thesis
    by (simp add: neighborMineCount_def countLoop_filter assms(1,2))
qed

lemma neighborMineCount_revealAt:
  "Board_inv b \<Longrightarrow> inBounds b (fst p) (snd p) \<Longrightarrow>
   neighborMineCount (revealAt b p) r c = neighborMineCount b r c"
  by (rule neighborMineCount_mines) (simp_all add: Board_inv_revealAt cellOf_revealAt)

lemma neighborMineCount_total:
  "Board_inv b \<Longrightarrow> \<exists>n. neighborMineCount b r c = Inr n"
  by (simp add: neighborMineCount_def countLoop_filter)

subsection \<open>The cascade on a well-formed board\<close>

lemma visit_skip:
  "\<not> (inBounds b (fst p + dr) (snd p + dc) \<and> \<not> m_revealed (cellOf b (fst p + dr, snd p + dc)) \<and>
      m_mark (cellOf b (fst p + dr, snd p + dc)) \<noteq> Flag) \<Longrightarrow>
   visit p (q, b, tr) (dr, dc) = (q, b, tr)"
  by (simp add: visit_def Let_def)

lemma visit_push:
  "inBounds b (fst p + dr) (snd p + dc) \<Longrightarrow> \<not> m_revealed (cellOf b (fst p + dr, snd p + dc)) \<Longrightarrow>
   m_mark (cellOf b (fst p + dr, snd p + dc)) \<noteq> Flag \<Longrightarrow>
   neighborMineCount (revealAt b (fst p + dr, snd p + dc)) (fst p + dr) (snd p + dc) = Inr 0 \<Longrightarrow>
   visit p (q, b, tr) (dr, dc) =
     (q @ [(fst p + dr, snd p + dc)], revealAt b (fst p + dr, snd p + dc),
      tr @ [Revealed (fst p + dr, snd p + dc), Pushed (fst p + dr, snd p + dc)])"
  by (simp add: visit_def Let_def)

lemma visit_reveal:
  "inBounds b (fst p + dr) (snd p + dc) \<Longrightarrow> \<not> m_revealed (cellOf b (fst p + dr, snd p + dc)) \<Longrightarrow>
   m_mark (cellOf b (fst p + dr, snd p + dc)) \<noteq> Flag \<Longrightarrow>
   neighborMineCount (revealAt b (fst p + dr, snd p + dc)) (fst p + dr) (snd p + dc) \<noteq> Inr 0 \<Longrightarrow>
   visit p (q, b, tr) (dr, dc) =
     (q, revealAt b (fst p + dr, snd p + dc), tr @ [Revealed (fst p + dr, snd p + dc)])"
  by (simp add: visit_def Let_def)

lemma neighborLoop_visit:
  "Board_inv (fst (snd s)) \<Longrightarrow> neighborLoop p ds s = Inr (foldl (visit p) s ds)"
proof (induction ds arbitrary: s)
  case Nil
  then show ?case by simp
next
  case (Cons d ds)
  obtain dr dc where d: "d = (dr, dc)" by (cases d)
  obtain q b tr where s: "s = (q, b, tr)" by (cases s)
  from Cons.prems have inv: "Board_inv b" by (simp add: s)
  let ?c = "(fst p + dr, snd p + dc)"
  consider (skip) "\<not> (inBounds b (fst p + dr) (snd p + dc) \<and> \<not> m_revealed (cellOf b ?c) \<and>
      m_mark (cellOf b ?c) \<noteq> Flag)"
    | (push) "inBounds b (fst p + dr) (snd p + dc)" "\<not> m_revealed (cellOf b ?c)"
        "m_mark (cellOf b ?c) \<noteq> Flag"
        "neighborMineCount (revealAt b ?c) (fst p + dr) (snd p + dc) = Inr 0"
    | (reveal) "inBounds b (fst p + dr) (snd p + dc)" "\<not> m_revealed (cellOf b ?c)"
        "m_mark (cellOf b ?c) \<noteq> Flag"
        "neighborMineCount (revealAt b ?c) (fst p + dr) (snd p + dc) \<noteq> Inr 0"
    by blast
  then show ?case
  proof cases
    case skip
    have "neighborLoop p (d # ds) s = neighborLoop p ds (q, b, tr)"
      using skip inv by (cases "inBounds b (fst p + dr) (snd p + dc)")
        (auto simp: s d Let_def isRevealed_cellOf markState_cellOf)
    also have "\<dots> = Inr (foldl (visit p) (q, b, tr) ds)"
      using Cons.IH [of "(q, b, tr)"] inv by simp
    finally show ?thesis
      by (simp add: s d visit_skip [OF skip])
  next
    case push
    have "neighborLoop p (d # ds) s =
        neighborLoop p ds (q @ [?c], revealAt b ?c, tr @ [Revealed ?c, Pushed ?c])"
      using push inv
      by (simp add: s d Let_def isRevealed_cellOf markState_cellOf setRevealed_revealAt)
    also have "\<dots> = Inr (foldl (visit p) (q @ [?c], revealAt b ?c, tr @ [Revealed ?c, Pushed ?c]) ds)"
      using Cons.IH [of "(q @ [?c], revealAt b ?c, tr @ [Revealed ?c, Pushed ?c])"] inv
      by (simp add: Board_inv_revealAt)
    finally show ?thesis
      by (simp add: s d visit_push [OF push])
  next
    case reveal
    obtain n where n: "neighborMineCount (revealAt b ?c) (fst p + dr) (snd p + dc) = Inr n"
      using neighborMineCount_total [OF Board_inv_revealAt [OF inv]] by blast
    with reveal have "n \<noteq> 0" by simp
    then have "neighborLoop p (d # ds) s =
        neighborLoop p ds (q, revealAt b ?c, tr @ [Revealed ?c])"
      using reveal inv n
      by (simp add: s d Let_def isRevealed_cellOf markState_cellOf setRevealed_revealAt)
    also have "\<dots> = Inr (foldl (visit p) (q, revealAt b ?c, tr @ [Revealed ?c]) ds)"
      using Cons.IH [of "(q, revealAt b ?c, tr @ [Revealed ?c])"] inv
      by (simp add: Board_inv_revealAt)
    finally show ?thesis
      by (simp add: s d visit_reveal [OF reveal])
  qed
qed

lemma foldl_visit_rule:
  assumes "J s" and "\<And>s d. d \<in> set ds \<Longrightarrow> J s \<Longrightarrow> J (visit p s d)"
  shows "J (foldl (visit p) s ds)"
  using assms by (induction ds arbitrary: s) auto

lemma visit_cases:
  obtains (skip) "visit p (q, b, tr) d = (q, b, tr)"
      "\<not> (inBounds b (fst p + fst d) (snd p + snd d) \<and>
          \<not> m_revealed (cellOf b (fst p + fst d, snd p + snd d)) \<and>
          m_mark (cellOf b (fst p + fst d, snd p + snd d)) \<noteq> Flag)"
  | (push) c where "c = (fst p + fst d, snd p + snd d)" "inBounds b (fst c) (snd c)"
      "\<not> m_revealed (cellOf b c)" "m_mark (cellOf b c) \<noteq> Flag"
      "neighborMineCount (revealAt b c) (fst c) (snd c) = Inr 0"
      "visit p (q, b, tr) d = (q @ [c], revealAt b c, tr @ [Revealed c, Pushed c])"
  | (reveal) c where "c = (fst p + fst d, snd p + snd d)" "inBounds b (fst c) (snd c)"
      "\<not> m_revealed (cellOf b c)" "m_mark (cellOf b c) \<noteq> Flag"
      "neighborMineCount (revealAt b c) (fst c) (snd c) \<noteq> Inr 0"
      "visit p (q, b, tr) d = (q, revealAt b c, tr @ [Revealed c])"
  by (cases "inBounds b (fst p + fst d) (snd p + snd d) \<and>
        \<not> m_revealed (cellOf b (fst p + fst d, snd p + snd d)) \<and>
        m_mark (cellOf b (fst p + fst d, snd p + snd d)) \<noteq> Flag";
      cases "neighborMineCount (revealAt b (fst p + fst d, snd p + snd d))
        (fst p + fst d) (snd p + snd d) = Inr 0")
    (simp_all add: visit_def Let_def)

lemma visit_Board_inv:
  "Board_inv (fst (snd s)) \<Longrightarrow> Board_inv (fst (snd (visit p s d)))"
proof -
  obtain q b tr where s: "s = (q, b, tr)" by (cases s)
  assume "Board_inv (fst (snd s))"
  then have "Board_inv b" by (simp add: s)
  then show ?thesis
    unfolding s by (cases rule: visit_cases [of p q b tr d]) (simp_all add: Board_inv_revealAt)
qed

lemma foldl_visit_Board_inv:
  "Board_inv (fst (snd s)) \<Longrightarrow> Board_inv (fst (snd (foldl (visit p) s ds)))"
  by (rule foldl_visit_rule [where J = "\<lambda>s. Board_inv (fst (snd s))"]) (simp_all add: visit_Board_inv)

text \<open>
  The invariant rule of the cascade: on a well-formed board the loop returns, and what
  every expansion of a point preserves holds at the end.
\<close>

lemma cascadeLoop_rule:
  assumes "Board_inv (fst (snd s))" and "I s"
    and step: "\<And>p q b tr. Board_inv b \<Longrightarrow> I (p # q, b, tr) \<Longrightarrow>
      I (foldl (visit p) (q, b, tr) offsets)"
  shows "\<exists>b' tr'. cascadeLoop s = Inr (b', tr') \<and> Board_inv b' \<and> I ([], b', tr')"
  using assms(1,2)
proof (induction s rule: cascadeLoop.induct)
  case (1 b tr)
  then show ?case by simp
next
  case (2 p q b tr)
  from "2.prems" have inv: "Board_inv b" by simp
  have run: "neighborLoop p offsets (q, b, tr) = Inr (foldl (visit p) (q, b, tr) offsets)"
    using neighborLoop_visit [of "(q, b, tr)" p offsets] inv by simp
  have "Board_inv (fst (snd (foldl (visit p) (q, b, tr) offsets)))"
    using foldl_visit_Board_inv [of "(q, b, tr)" p offsets] inv by simp
  moreover have "I (foldl (visit p) (q, b, tr) offsets)"
    using step [OF inv] "2.prems" by simp
  ultimately show ?case
    using "2.IH" [OF run] by (simp add: run)
qed

lemma grownFrom_refl: "Board_inv b \<Longrightarrow> grownFrom b b"
  by (simp add: grownFrom_def)

lemma grownFrom_inBounds: "grownFrom b0 b \<Longrightarrow> inBounds b r c = inBounds b0 r c"
  by (simp add: grownFrom_def inBounds_def)

lemma grownFrom_revealAt:
  "grownFrom b0 b \<Longrightarrow> inBounds b (fst p) (snd p) \<Longrightarrow> grownFrom b0 (revealAt b p)"
  by (auto simp: grownFrom_def Board_inv_revealAt cellOf_revealAt simp del: split_paired_All)

lemma grownFrom_count:
  "Board_inv b0 \<Longrightarrow> grownFrom b0 b \<Longrightarrow> neighborMineCount b r c = neighborMineCount b0 r c"
  by (rule neighborMineCount_mines) (simp_all add: grownFrom_def del: split_paired_All)

lemma grownFrom_trans: "grownFrom b0 b1 \<Longrightarrow> grownFrom b1 b2 \<Longrightarrow> grownFrom b0 b2"
  by (simp add: grownFrom_def del: split_paired_All)

lemma visit_grownFrom:
  assumes "grownFrom b0 (fst (snd s))"
  shows "grownFrom b0 (fst (snd (visit p s d)))"
proof -
  obtain q b tr where s: "s = (q, b, tr)" by (cases s)
  from assms have "grownFrom b0 b" by (simp add: s)
  then show ?thesis
    unfolding s by (cases rule: visit_cases [of p q b tr d]) (simp_all add: grownFrom_revealAt)
qed

lemma foldl_visit_grownFrom:
  "grownFrom b0 (fst (snd s)) \<Longrightarrow> grownFrom b0 (fst (snd (foldl (visit p) s ds)))"
  by (rule foldl_visit_rule [where J = "\<lambda>s. grownFrom b0 (fst (snd s))"])
    (simp_all add: visit_grownFrom)

text \<open>The cascade returns on every well-formed board and only reveals cells.\<close>

lemma cascadeLoop_grownFrom:
  assumes "grownFrom b0 b"
  shows "\<exists>b' tr'. cascadeLoop (q, b, tr) = Inr (b', tr') \<and> grownFrom b0 b'"
proof -
  have "\<exists>b' tr'. cascadeLoop (q, b, tr) = Inr (b', tr') \<and> Board_inv b' \<and>
      grownFrom b0 (fst (snd ([] :: Point list, b', tr')))"
  proof (rule cascadeLoop_rule [where I = "\<lambda>s. grownFrom b0 (fst (snd s))"])
    show "Board_inv (fst (snd (q, b, tr)))" using assms by (simp add: grownFrom_def)
    show "grownFrom b0 (fst (snd (q, b, tr)))" using assms by simp
    show "grownFrom b0 (fst (snd (foldl (visit p) (q', b', tr') offsets)))"
      if "grownFrom b0 (fst (snd (p # q', b', tr')))" for p q' b' tr'
      using that foldl_visit_grownFrom [of b0 "(q', b', tr')" p offsets] by simp
  qed
  then show ?thesis by auto
qed

subsection \<open>Marks\<close>

lemma withCell_same:
  "Board_inv b \<Longrightarrow> inBounds b (fst p) (snd p) \<Longrightarrow> withCell b p (cellOf b p) = b"
  by (simp add: withCell_def cellOf_def)

lemma withCell_withCell:
  "Board_inv b \<Longrightarrow> inBounds b (fst p) (snd p) \<Longrightarrow>
   withCell (withCell b p x) p y = withCell b p y"
  by (simp add: withCell_def Board_inv_def inBounds_def list_all_length)

lemma eventFilter_withCell:
  assumes "Board_inv b" "inBounds b r c"
  shows "eventFilter b r c =
    Inr (withCell b (r, c) ((cellOf b (r, c))\<lparr>m_mark := nextMark (m_mark (cellOf b (r, c)))\<rparr>))"
  using assms
  by (cases "m_mark (cellOf b (r, c))")
    (simp_all add: eventFilter_def markState_cellOf setMarkState_def updateCell_withCell)

text \<open>
  C9. A right click on a cell of the grid advances its mark along None, Flag, Question,
  None and changes nothing else; three right clicks on the same cell give back the board
  they started from.
\<close>

theorem eventFilter_cycle:
  assumes "Board_inv b" "inBounds b r c"
  shows "\<exists>st b1 b2 b3.
           markState b r c = Inr st \<and>
           eventFilter b r c = Inr b1 \<and> markState b1 r c = Inr (nextMark st) \<and>
           isMine b1 r c = isMine b r c \<and> isRevealed b1 r c = isRevealed b r c \<and>
           (\<forall>p. p \<noteq> (r, c) \<longrightarrow> cellOf b1 p = cellOf b p) \<and>
           eventFilter b1 r c = Inr b2 \<and> markState b2 r c = Inr (nextMark (nextMark st)) \<and>
           eventFilter b2 r c = Inr b3 \<and> markState b3 r c = Inr st \<and> b3 = b"
proof -
  let ?p = "(r, c)"
  let ?x = "cellOf b ?p"
  let ?b1 = "withCell b ?p (?x\<lparr>m_mark := nextMark (m_mark ?x)\<rparr>)"
  let ?b2 = "withCell b ?p (?x\<lparr>m_mark := nextMark (nextMark (m_mark ?x))\<rparr>)"
  have inb: "inBounds b (fst ?p) (snd ?p)" using assms by simp
  have inv1: "Board_inv ?b1" and inv2: "Board_inv ?b2"
    using assms by (simp_all add: Board_inv_withCell)
  have e1: "eventFilter b r c = Inr ?b1"
    using assms by (rule eventFilter_withCell)
  have e2: "eventFilter ?b1 r c = Inr ?b2"
    using eventFilter_withCell [OF inv1, of r c] assms
    by (simp add: cellOf_withCell [OF assms(1) inb] withCell_withCell [OF assms(1) inb])
  have three: "nextMark (nextMark (nextMark (m_mark ?x))) = m_mark ?x"
    by (cases "m_mark ?x") simp_all
  have e3: "eventFilter ?b2 r c = Inr b"
    using eventFilter_withCell [OF inv2, of r c] assms
    by (simp add: cellOf_withCell [OF assms(1) inb] withCell_withCell [OF assms(1) inb]
        three withCell_same [OF assms(1) inb])
  have frame: "\<forall>p. p \<noteq> ?p \<longrightarrow> cellOf ?b1 p = cellOf b p"
    by (simp add: cellOf_withCell [OF assms(1) inb] del: split_paired_All)
  show ?thesis
    using assms e1 e2 e3 frame inv1 inv2
    by (simp add: markState_cellOf isMine_cellOf isRevealed_cellOf
        cellOf_withCell [OF assms(1) inb] del: split_paired_All)
qed

theorem eventFilter_cycle_witness:
  "Board_inv board3x3 \<and> inBounds board3x3 0 2 \<and> markState board3x3 0 2 = Inr NoMark \<and>
   (\<exists>b1 b2. eventFilter board3x3 0 2 = Inr b1 \<and> markState b1 0 2 = Inr Flag \<and>
      eventFilter b1 0 2 = Inr b2 \<and> markState b2 0 2 = Inr Question \<and>
      eventFilter b2 0 2 = Inr board3x3)"
proof -
  have inv: "Board_inv board3x3" by code_simp
  have inb: "inBounds board3x3 0 2" by code_simp
  have st: "markState board3x3 0 2 = Inr NoMark" by code_simp
  show ?thesis
    using eventFilter_cycle [OF inv inb] inv inb st by auto
qed

subsection \<open>Loops over all cells\<close>

lemma cellsInOrder_set: "set (cellsInOrder b) = {p. inBounds b (fst p) (snd p)}"
  by (auto simp: cellsInOrder_def inBounds_def)

lemma cellsInOrder_distinct: "distinct (cellsInOrder b)"
proof -
  have "distinct [(r, c). r \<leftarrow> rs, c \<leftarrow> cs]" if "distinct rs" "distinct cs"
    for rs cs :: "int list"
    using that by (induction rs) (auto simp: distinct_map inj_on_def)
  then show ?thesis
    by (simp add: cellsInOrder_def)
qed

lemma scanLoop_all:
  assumes "Board_inv b" "\<forall>p \<in> set ps. inBounds b (fst p) (snd p)"
  shows "scanLoop b ps = Inr (\<forall>p \<in> set ps. m_hasMine (cellOf b p) \<or> m_revealed (cellOf b p))"
  using assms(2)
proof (induction ps)
  case Nil
  then show ?case by simp
next
  case (Cons p ps)
  obtain r c where p: "p = (r, c)" by (cases p)
  show ?case
    using Cons assms(1) by (auto simp: p cellAt_cellOf)
qed

lemma allNonMinesRevealed_cellOf:
  assumes "Board_inv b"
  shows "allNonMinesRevealed b =
    Inr (\<forall>p. inBounds b (fst p) (snd p) \<longrightarrow> m_hasMine (cellOf b p) \<or> m_revealed (cellOf b p))"
  unfolding allNonMinesRevealed_def
  by (subst scanLoop_all [OF assms]) (simp_all add: cellsInOrder_set del: split_paired_All)

lemma allNonMinesRevealed_iff:
  assumes "Board_inv b"
  shows "allNonMinesRevealed b =
    Inr (\<forall>r c. inBounds b r c \<and> isMine b r c = Inr False \<longrightarrow> isRevealed b r c = Inr True)"
proof -
  have "(\<forall>p. inBounds b (fst p) (snd p) \<longrightarrow> m_hasMine (cellOf b p) \<or> m_revealed (cellOf b p)) =
      (\<forall>r c. inBounds b r c \<and> isMine b r c = Inr False \<longrightarrow> isRevealed b r c = Inr True)"
  proof
    assume l: "\<forall>p. inBounds b (fst p) (snd p) \<longrightarrow> m_hasMine (cellOf b p) \<or> m_revealed (cellOf b p)"
    show "\<forall>r c. inBounds b r c \<and> isMine b r c = Inr False \<longrightarrow> isRevealed b r c = Inr True"
    proof (intro allI impI)
      fix r c
      assume "inBounds b r c \<and> isMine b r c = Inr False"
      then show "isRevealed b r c = Inr True"
        using l [rule_format, of "(r, c)"] assms by (auto simp: isMine_cellOf isRevealed_cellOf)
    qed
  next
    assume r: "\<forall>r c. inBounds b r c \<and> isMine b r c = Inr False \<longrightarrow> isRevealed b r c = Inr True"
    show "\<forall>p. inBounds b (fst p) (snd p) \<longrightarrow> m_hasMine (cellOf b p) \<or> m_revealed (cellOf b p)"
    proof (intro allI impI)
      fix p :: Point
      assume "inBounds b (fst p) (snd p)"
      then show "m_hasMine (cellOf b p) \<or> m_revealed (cellOf b p)"
        using r [rule_format, of "fst p" "snd p"] assms
        by (auto simp: isMine_cellOf isRevealed_cellOf)
    qed
  qed
  then show ?thesis
    by (simp only: allNonMinesRevealed_cellOf [OF assms])
qed

lemma showMinesLoop_grownFrom:
  assumes "grownFrom b0 b" "\<forall>p \<in> set ps. inBounds b (fst p) (snd p)"
  shows "\<exists>b'. showMinesLoop b ps = Inr b' \<and> grownFrom b0 b' \<and>
    (\<forall>p. m_revealed (cellOf b' p) =
       (m_revealed (cellOf b p) \<or> p \<in> set ps \<and> m_hasMine (cellOf b p)))"
  using assms
proof (induction ps arbitrary: b)
  case Nil
  then show ?case by simp
next
  case (Cons p ps)
  obtain r c where p: "p = (r, c)" by (cases p)
  from Cons.prems have inv: "Board_inv b" and inb: "inBounds b r c"
    by (simp_all add: grownFrom_def p)
  show ?case
  proof (cases "m_hasMine (cellOf b p)")
    case False
    have "showMinesLoop b (p # ps) = showMinesLoop b ps"
      using False inv inb by (simp add: p isMine_cellOf)
    moreover obtain b' where "showMinesLoop b ps = Inr b'" "grownFrom b0 b'"
      "\<forall>x. m_revealed (cellOf b' x) = (m_revealed (cellOf b x) \<or> x \<in> set ps \<and> m_hasMine (cellOf b x))"
      using Cons.IH [of b] Cons.prems by auto
    ultimately show ?thesis
      using False by auto
  next
    case True
    let ?b1 = "revealAt b p"
    have g1: "grownFrom b0 ?b1"
      using Cons.prems(1) inb by (simp add: grownFrom_revealAt p)
    have "showMinesLoop b (p # ps) = showMinesLoop ?b1 ps"
      using True inv inb by (simp add: p isMine_cellOf setRevealed_revealAt)
    moreover obtain b' where "showMinesLoop ?b1 ps = Inr b'" "grownFrom b0 b'"
      "\<forall>x. m_revealed (cellOf b' x) =
         (m_revealed (cellOf ?b1 x) \<or> x \<in> set ps \<and> m_hasMine (cellOf ?b1 x))"
      using Cons.IH [OF g1] Cons.prems(2) by auto
    ultimately show ?thesis
      using True inv inb by (auto simp: cellOf_revealAt p)
  qed
qed

lemma gameOver_lost:
  assumes "grownFrom b0 b"
  shows "\<exists>b'. gameOver False b = Inr b' \<and> grownFrom b0 b' \<and>
    (\<forall>p. m_revealed (cellOf b' p) = (m_revealed (cellOf b p) \<or> m_hasMine (cellOf b p)))"
proof -
  have mine_inside: "m_hasMine (cellOf b p) \<Longrightarrow> p \<in> set (cellsInOrder b)" for p
    by (auto simp: cellsInOrder_set cellOf_def Cell_default_def split: if_splits)
  obtain b' where "showMinesLoop b (cellsInOrder b) = Inr b'" "grownFrom b0 b'"
    "\<forall>p. m_revealed (cellOf b' p) =
       (m_revealed (cellOf b p) \<or> p \<in> set (cellsInOrder b) \<and> m_hasMine (cellOf b p))"
    using showMinesLoop_grownFrom [OF assms, of "cellsInOrder b"]
    by (auto simp: cellsInOrder_set)
  then show ?thesis
    using mine_inside by (auto simp: gameOver_def)
qed

lemma checkWinCondition_result:
  assumes "Board_inv b"
  shows "checkWinCondition b =
    Inr (if allNonMinesRevealed b = Inr True then Win else Continue, b)"
  using allNonMinesRevealed_iff [OF assms]
  by (simp add: checkWinCondition_def gameOver_def)

subsection \<open>revealCell\<close>

lemma revealCell_safe:
  assumes "Board_inv b" "inBounds b row col" "isMine b row col = Inr False"
  shows "\<exists>b'. revealCell b row col =
      Inr (if allNonMinesRevealed b' = Inr True then Win else Continue, b') \<and>
    grownFrom b b' \<and>
    (if neighborMineCount b row col = Inr 0
     then \<exists>tr. cascadeReveal (revealAt b (row, col)) row col = Inr (b', tr)
     else b' = revealAt b (row, col))"
proof -
  let ?b1 = "revealAt b (row, col)"
  have g1: "grownFrom b ?b1"
    using assms by (simp add: grownFrom_revealAt grownFrom_refl)
  then have inv1: "Board_inv ?b1" by (simp add: grownFrom_def)
  have cnt: "neighborMineCount ?b1 row col = neighborMineCount b row col"
    using assms by (simp add: neighborMineCount_revealAt)
  obtain n where n: "neighborMineCount b row col = Inr n"
    using neighborMineCount_total [OF assms(1)] by blast
  show ?thesis
  proof (cases "n = 0")
    case True
    obtain b' tr where run: "cascadeReveal ?b1 row col = Inr (b', tr)" and g: "grownFrom b b'"
      using cascadeLoop_grownFrom [OF g1] unfolding cascadeReveal_def by blast
    then have "Board_inv b'" by (simp add: grownFrom_def)
    then show ?thesis
      using assms True n cnt run g
      by (simp add: revealCell_def setRevealed_revealAt checkWinCondition_result)
  next
    case False
    then show ?thesis
      using assms n cnt g1 inv1
      by (simp add: revealCell_def setRevealed_revealAt checkWinCondition_result)
  qed
qed

lemma revealCell_mine:
  assumes "Board_inv b" "inBounds b row col" "isMine b row col = Inr True"
  shows "\<exists>b'. revealCell b row col = Inr (Loss, b') \<and> grownFrom b b' \<and>
    (\<forall>p. m_revealed (cellOf b' p) =
       (m_revealed (cellOf b p) \<or> m_hasMine (cellOf b p)))"
proof -
  let ?b1 = "revealAt b (row, col)"
  have g1: "grownFrom b ?b1"
    using assms by (simp add: grownFrom_revealAt grownFrom_refl)
  have mine: "m_hasMine (cellOf b (row, col))"
    using assms by (simp add: isMine_cellOf)
  obtain b' where "gameOver False ?b1 = Inr b'" "grownFrom b b'"
    "\<forall>p. m_revealed (cellOf b' p) = (m_revealed (cellOf ?b1 p) \<or> m_hasMine (cellOf ?b1 p))"
    using gameOver_lost [OF g1] by blast
  then show ?thesis
    using assms mine
    by (auto simp: revealCell_def setRevealed_revealAt cellOf_revealAt)
qed

text \<open>
  C2. Revealing a cell of the grid that is not mined, cascade included, ends in
  \<open>Win\<close> when \<^verbatim>\<open>allNonMinesRevealed\<close> holds of the board it leaves and in
  \<open>Continue\<close> otherwise; and on every board \<^verbatim>\<open>allNonMinesRevealed\<close> is true exactly
  when every cell without a mine is revealed.
\<close>

theorem revealCell_outcome:
  assumes "Board_inv b" "inBounds b row col" "isMine b row col = Inr False" "Board_inv a"
  shows "(\<exists>out b'. revealCell b row col = Inr (out, b') \<and>
            (out = Win \<and> allNonMinesRevealed b' = Inr True \<or>
             out = Continue \<and> allNonMinesRevealed b' = Inr False)) \<and>
         allNonMinesRevealed a =
           Inr (\<forall>r c. inBounds a r c \<and> isMine a r c = Inr False \<longrightarrow> isRevealed a r c = Inr True)"
proof -
  obtain b' where run: "revealCell b row col =
      Inr (if allNonMinesRevealed b' = Inr True then Win else Continue, b')"
    and g: "grownFrom b b'"
    using revealCell_safe [OF assms(1-3)] by blast
  from g have "Board_inv b'" by (simp add: grownFrom_def)
  then have "allNonMinesRevealed b' = Inr True \<or> allNonMinesRevealed b' = Inr False"
    by (auto simp: allNonMinesRevealed_iff)
  with run have "\<exists>out b'. revealCell b row col = Inr (out, b') \<and>
            (out = Win \<and> allNonMinesRevealed b' = Inr True \<or>
             out = Continue \<and> allNonMinesRevealed b' = Inr False)"
    by auto
  then show ?thesis
    using allNonMinesRevealed_iff [OF assms(4)] by simp
qed

text \<open>
  The scenario of the specification: on the 1 x 3 board with its mine in column 2,
  revealing column 0 reveals column 1 as well and wins; on the 3 x 3 board revealing a
  corner leaves seven safe cells hidden and the game continues.
\<close>

theorem revealCell_outcome_witness:
  "Board_inv board1x3 \<and> inBounds board1x3 0 0 \<and> isMine board1x3 0 0 = Inr False \<and>
   revealCell board1x3 0 0 =
     Inr (Win, board1x3\<lparr>m_cells := [[shownCell False, shownCell False, hiddenCell True]]\<rparr>) \<and>
   allNonMinesRevealed
     (board1x3\<lparr>m_cells := [[shownCell False, shownCell False, hiddenCell True]]\<rparr>) = Inr True \<and>
   revealCell board3x3 0 0 = Inr (Continue, board3x3shown) \<and>
   allNonMinesRevealed board3x3shown = Inr False"
proof -
  have inv: "Board_inv board1x3" by code_simp
  have inb: "inBounds board1x3 0 0" by code_simp
  have safe: "isMine board1x3 0 0 = Inr False" by code_simp
  have run: "revealCell board1x3 0 0 =
     Inr (Win, board1x3\<lparr>m_cells := [[shownCell False, shownCell False, hiddenCell True]]\<rparr>)"
    by code_simp
  have inv3: "Board_inv board3x3" by code_simp
  have inb3: "inBounds board3x3 0 0" by code_simp
  have safe3: "isMine board3x3 0 0 = Inr False" by code_simp
  have run3: "revealCell board3x3 0 0 = Inr (Continue, board3x3shown)" by code_simp
  show ?thesis
    using revealCell_outcome [OF inv inb safe inv] revealCell_outcome [OF inv3 inb3 safe3 inv3]
      inv inb safe run run3
    by simp
qed

text \<open>
  C4, as the specification states it, fails: \<^verbatim>\<open>gameOver(false)\<close>, which
  \<^verbatim>\<open>revealCell\<close> calls on a mine, reveals the other mines too. With mines in
  columns 0 and 2, revealing column 0 reveals column 2.
\<close>

theorem revealCell_mine_counterexample:
  "inBounds board1x3twoMines 0 0 \<and> isMine board1x3twoMines 0 0 = Inr True \<and>
   isRevealed board1x3twoMines 0 0 = Inr False \<and> markState board1x3twoMines 0 0 = Inr NoMark \<and>
   isRevealed board1x3twoMines 0 2 = Inr False \<and>
   revealCell board1x3twoMines 0 0 =
     Inr (Loss, board1x3twoMines\<lparr>m_cells := [[shownCell True, hiddenCell False, shownCell True]]\<rparr>) \<and>
   isRevealed
     (board1x3twoMines\<lparr>m_cells := [[shownCell True, hiddenCell False, shownCell True]]\<rparr>) 0 2 =
     Inr True"
  by code_simp

text \<open>
  C4, amended. Revealing a mined cell of the grid ends in \<open>Loss\<close> with that cell
  revealed; \<^verbatim>\<open>gameOver(false)\<close> reveals every other mined cell as well; no cell
  without a mine changes (there is no cascade), and no mine or mark changes.
\<close>

theorem revealCell_mine_loss:
  assumes "Board_inv b" "inBounds b row col" "isMine b row col = Inr True"
  shows "\<exists>b'. revealCell b row col = Inr (Loss, b') \<and> isRevealed b' row col = Inr True \<and>
           m_width b' = m_width b \<and> m_height b' = m_height b \<and>
           (\<forall>r c. inBounds b r c \<longrightarrow>
              isMine b' r c = isMine b r c \<and> markState b' r c = markState b r c \<and>
              isRevealed b' r c = Inr (isRevealed b r c = Inr True \<or> isMine b r c = Inr True))"
proof -
  obtain b' where run: "revealCell b row col = Inr (Loss, b')" and g: "grownFrom b b'"
    and shown: "\<forall>p. m_revealed (cellOf b' p) = (m_revealed (cellOf b p) \<or> m_hasMine (cellOf b p))"
    using revealCell_mine [OF assms] by blast
  from g have inv': "Board_inv b'" and w: "m_width b' = m_width b" and h: "m_height b' = m_height b"
    and mines: "\<And>p. m_hasMine (cellOf b' p) = m_hasMine (cellOf b p)"
    and marks: "\<And>p. m_mark (cellOf b' p) = m_mark (cellOf b p)"
    by (simp_all add: grownFrom_def del: split_paired_All)
  have inb': "inBounds b' r c = inBounds b r c" for r c
    using g by (rule grownFrom_inBounds)
  have cells: "isMine b' r c = isMine b r c \<and> markState b' r c = markState b r c \<and>
      isRevealed b' r c = Inr (isRevealed b r c = Inr True \<or> isMine b r c = Inr True)"
    if "inBounds b r c" for r c
    using that inb' [of r c] assms(1) inv' mines marks shown [rule_format, of "(r, c)"]
    by (simp add: isMine_cellOf markState_cellOf isRevealed_cellOf)
  have "isRevealed b' row col = Inr True"
    using cells [OF assms(2)] assms(3) by simp
  with run w h cells show ?thesis by blast
qed

theorem revealCell_mine_loss_witness:
  "Board_inv board1x3twoMines \<and> inBounds board1x3twoMines 0 0 \<and>
   isMine board1x3twoMines 0 0 = Inr True \<and>
   (\<exists>b'. revealCell board1x3twoMines 0 0 = Inr (Loss, b') \<and> isRevealed b' 0 0 = Inr True \<and>
      isRevealed b' 0 1 = Inr False \<and> isRevealed b' 0 2 = Inr True)"
proof -
  have inv: "Board_inv board1x3twoMines" by code_simp
  have inb: "inBounds board1x3twoMines 0 0" by code_simp
  have mine: "isMine board1x3twoMines 0 0 = Inr True" by code_simp
  have others: "inBounds board1x3twoMines 0 1" "inBounds board1x3twoMines 0 2"
    "isRevealed board1x3twoMines 0 1 = Inr False" "isMine board1x3twoMines 0 1 = Inr False"
    "isMine board1x3twoMines 0 2 = Inr True"
    by code_simp+
  show ?thesis
    using revealCell_mine_loss [OF inv inb mine] inv inb mine others by auto
qed

subsection \<open>Clicks on a revealed cell\<close>

lemma onCellLeftClicked_revealed:
  "isRevealed b row col = Inr True \<Longrightarrow> onCellLeftClicked b row col = Inr (Continue, b)"
  by (simp add: onCellLeftClicked_def)

text \<open>
  C8 at a concrete input: the corner \<open>(0, 0)\<close> of the 3 x 3 board is revealed and
  unmarked. A left click on it changes nothing and the game continues, as the
  specification says; a right click on it sets its mark to \<open>Flag\<close>, where the
  specification wants no change: \<^verbatim>\<open>eventFilter\<close> lacks the test of
  \<^verbatim>\<open>isRevealed\<close> that \<^verbatim>\<open>onCellLeftClicked\<close> has.
\<close>

theorem clicks_on_revealed_cell:
  "isRevealed board3x3shown 0 0 = Inr True \<and> markState board3x3shown 0 0 = Inr NoMark \<and>
   onCellLeftClicked board3x3shown 0 0 = Inr (Continue, board3x3shown) \<and>
   eventFilter board3x3shown 0 0 =
     Inr (board3x3shown\<lparr>m_cells :=
       [[\<lparr>m_hasMine = False, m_revealed = True, m_mark = Flag\<rparr>, hiddenCell False, hiddenCell False],
        [hiddenCell False, hiddenCell True, hiddenCell False],
        [hiddenCell False, hiddenCell False, hiddenCell False]]\<rparr>) \<and>
   markState (board3x3shown\<lparr>m_cells :=
       [[\<lparr>m_hasMine = False, m_revealed = True, m_mark = Flag\<rparr>, hiddenCell False, hiddenCell False],
        [hiddenCell False, hiddenCell True, hiddenCell False],
        [hiddenCell False, hiddenCell False, hiddenCell False]]\<rparr>) 0 0 = Inr Flag"
  by code_simp

subsection \<open>Coordinates outside the grid\<close>

text \<open>
  C5, as the specification states it, fails: outside the grid every operation that takes
  a coordinate indexes \<^verbatim>\<open>m_cells\<close> unchecked, which is undefined behaviour and not
  a reported error.
\<close>

theorem outOfRange_counterexample:
  "\<not> inBounds board3x3 3 0 \<and>
   isMine board3x3 3 0 = Inl IndexOutOfRange \<and>
   isRevealed board3x3 3 0 = Inl IndexOutOfRange \<and>
   markState board3x3 3 0 = Inl IndexOutOfRange \<and>
   setMine board3x3 3 0 True = Inl IndexOutOfRange \<and>
   setRevealed board3x3 3 0 True = Inl IndexOutOfRange \<and>
   setMarkState board3x3 3 0 Flag = Inl IndexOutOfRange \<and>
   revealCell board3x3 3 0 = Inl IndexOutOfRange"
  by code_simp

text \<open>
  C5, amended. On a board as the constructor builds it, the operations that take a
  coordinate return normally, reading or writing the cell addressed, when the coordinate
  is in range; when it is out of range they index \<^verbatim>\<open>m_cells\<close> with no check: nothing
  is reported, nothing is clamped, and the access is undefined. \<^verbatim>\<open>inBounds\<close> is
  the test a caller has.
\<close>

theorem coordinates_inBounds:
  assumes "Board_inv b"
  shows "(inBounds b row col \<longrightarrow>
            isMine b row col = Inr (m_hasMine (cellOf b (row, col))) \<and>
            isRevealed b row col = Inr (m_revealed (cellOf b (row, col))) \<and>
            markState b row col = Inr (m_mark (cellOf b (row, col))) \<and>
            setMine b row col v = Inr (withCell b (row, col) ((cellOf b (row, col))\<lparr>m_hasMine := v\<rparr>)) \<and>
            setRevealed b row col v = Inr (withCell b (row, col) ((cellOf b (row, col))\<lparr>m_revealed := v\<rparr>)) \<and>
            setMarkState b row col st = Inr (withCell b (row, col) ((cellOf b (row, col))\<lparr>m_mark := st\<rparr>)) \<and>
            (\<exists>out b'. revealCell b row col = Inr (out, b'))) \<and>
         (\<not> inBounds b row col \<longrightarrow>
            isMine b row col = Inl IndexOutOfRange \<and>
            isRevealed b row col = Inl IndexOutOfRange \<and>
            markState b row col = Inl IndexOutOfRange \<and>
            setMine b row col v = Inl IndexOutOfRange \<and>
            setRevealed b row col v = Inl IndexOutOfRange \<and>
            setMarkState b row col st = Inl IndexOutOfRange \<and>
            revealCell b row col = Inl IndexOutOfRange)"
proof (intro conjI impI)
  assume inb: "inBounds b row col"
  show "\<exists>out b'. revealCell b row col = Inr (out, b')"
  proof (cases "m_hasMine (cellOf b (row, col))")
    case True
    then show ?thesis
      using revealCell_mine [OF assms inb] assms inb by (auto simp: isMine_cellOf)
  next
    case False
    then show ?thesis
      using revealCell_safe [OF assms inb] assms inb by (auto simp: isMine_cellOf)
  qed
qed (simp_all add: assms isMine_def isRevealed_def markState_def setMine_def setRevealed_def
    setMarkState_def revealCell_def cellAt_cellOf cellAt_outside updateCell_withCell
    updateCell_outside)

theorem coordinates_inBounds_witness:
  "Board_inv board3x3 \<and> inBounds board3x3 1 1 \<and> \<not> inBounds board3x3 1 3 \<and>
   isMine board3x3 1 1 = Inr True \<and> (\<exists>out b'. revealCell board3x3 1 1 = Inr (out, b')) \<and>
   isMine board3x3 1 3 = Inl IndexOutOfRange \<and> revealCell board3x3 1 3 = Inl IndexOutOfRange"
proof -
  have inv: "Board_inv board3x3" by code_simp
  have inb: "inBounds board3x3 1 1" "\<not> inBounds board3x3 1 3" by code_simp+
  have mine: "isMine board3x3 1 1 = Inr True" by code_simp
  show ?thesis
    using coordinates_inBounds [OF inv, of 1 1] coordinates_inBounds [OF inv, of 1 3] inv inb mine
    by simp
qed

subsection \<open>No cell is revealed or queued twice\<close>

lemma visit_trace:
  assumes "Board_inv b" "distinct tr"
    and "\<forall>x. Revealed x \<in> set tr \<or> Pushed x \<in> set tr \<longrightarrow> m_revealed (cellOf b x)"
    and "\<forall>x. m_revealed (cellOf b x) = (m_revealed (cellOf b1 x) \<or> Revealed x \<in> set tr)"
    and "visit p (q, b, tr) d = (q', b', tr')"
  shows "Board_inv b' \<and> distinct tr' \<and>
    (\<forall>x. Revealed x \<in> set tr' \<or> Pushed x \<in> set tr' \<longrightarrow> m_revealed (cellOf b' x)) \<and>
    (\<forall>x. m_revealed (cellOf b' x) = (m_revealed (cellOf b1 x) \<or> Revealed x \<in> set tr'))"
proof (cases rule: visit_cases [of p q b tr d])
  case skip
  with assms show ?thesis by simp
next
  case (push c)
  from push(3) assms(3) have fresh: "Revealed c \<notin> set tr" "Pushed c \<notin> set tr"
    by blast+
  have cells: "cellOf (revealAt b c) x = (if x = c then (cellOf b c)\<lparr>m_revealed := True\<rparr> else cellOf b x)"
    for x
    using assms(1) push(2) by (rule cellOf_revealAt)
  from push(6) assms(5) have eq: "q' = q @ [c]" "b' = revealAt b c" "tr' = tr @ [Revealed c, Pushed c]"
    by simp_all
  show ?thesis
    unfolding eq using assms(1-4) fresh
    by (auto simp: cells Board_inv_revealAt simp del: split_paired_All)
next
  case (reveal c)
  from reveal(3) assms(3) have fresh: "Revealed c \<notin> set tr"
    by blast
  have cells: "cellOf (revealAt b c) x = (if x = c then (cellOf b c)\<lparr>m_revealed := True\<rparr> else cellOf b x)"
    for x
    using assms(1) reveal(2) by (rule cellOf_revealAt)
  from reveal(6) assms(5) have eq: "q' = q" "b' = revealAt b c" "tr' = tr @ [Revealed c]"
    by simp_all
  show ?thesis
    unfolding eq using assms(1-4) fresh
    by (auto simp: cells Board_inv_revealAt simp del: split_paired_All)
qed

lemma visit_traceInv: "traceInv b1 t s \<Longrightarrow> traceInv b1 t (visit p s d)"
proof -
  obtain q b tr where s: "s = (q, b, tr)" by (cases s)
  obtain q' b' tr' where v: "visit p (q, b, tr) d = (q', b', tr')" by (cases "visit p (q, b, tr) d")
  assume a: "traceInv b1 t s"
  from a have 0: "Pushed t \<in> set tr" and 1: "Board_inv b" and 2: "distinct tr"
    and 3: "\<forall>x. Revealed x \<in> set tr \<or> Pushed x \<in> set tr \<longrightarrow> m_revealed (cellOf b x)"
    and 4: "\<forall>x. m_revealed (cellOf b x) = (m_revealed (cellOf b1 x) \<or> Revealed x \<in> set tr)"
    by (auto simp: s traceInv_def simp del: split_paired_All)
  have "set tr \<subseteq> set tr'"
    using v by (cases rule: visit_cases [of p q b tr d]) auto
  with 0 visit_trace [OF 1 2 3 4 v] show ?thesis
    by (auto simp: s v traceInv_def simp del: split_paired_All)
qed

lemma cascadeLoop_traceInv:
  assumes "traceInv b1 t (q, b, tr)"
  shows "\<exists>b' tr'. cascadeLoop (q, b, tr) = Inr (b', tr') \<and> traceInv b1 t ([], b', tr')"
proof -
  have "\<exists>b' tr'. cascadeLoop (q, b, tr) = Inr (b', tr') \<and> Board_inv b' \<and>
      traceInv b1 t ([], b', tr')"
  proof (rule cascadeLoop_rule [where I = "traceInv b1 t"])
    show "Board_inv (fst (snd (q, b, tr)))" using assms by (simp add: traceInv_def)
    show "traceInv b1 t (q, b, tr)" by (rule assms)
    show "traceInv b1 t (foldl (visit p) (q', b', tr') offsets)"
      if "traceInv b1 t (p # q', b', tr')" for p q' b' tr'
    proof (rule foldl_visit_rule [where J = "traceInv b1 t"])
      show "traceInv b1 t (q', b', tr')" using that unfolding traceInv_def prod.case .
    qed (rule visit_traceInv)
  qed
  then show ?thesis by auto
qed

text \<open>
  C6. The cascade that \<^verbatim>\<open>revealCell\<close> starts (it has revealed the start cell
  before) returns, and its history has no event twice: no cell is revealed twice and no
  cell is pushed on the queue twice. The history is complete: the cells revealed at the
  end are those revealed at the start and those the cascade has logged.
\<close>

theorem cascadeReveal_once:
  assumes "Board_inv b" "setRevealed b row col True = Inr b1"
  shows "\<exists>b' tr. cascadeReveal b1 row col = Inr (b', tr) \<and> distinct tr \<and>
           Pushed (row, col) \<in> set tr \<and>
           (\<forall>r c. inBounds b r c \<longrightarrow>
              isRevealed b' r c = Inr (isRevealed b1 r c = Inr True \<or> Revealed (r, c) \<in> set tr))"
proof -
  have inb: "inBounds b row col"
    using assms by (cases "inBounds b row col") (simp_all add: setRevealed_def updateCell_outside)
  then have b1: "b1 = revealAt b (row, col)"
    using assms by (simp add: setRevealed_revealAt)
  have inv1: "Board_inv b1"
    using assms(1) by (simp add: b1 Board_inv_revealAt)
  have start: "m_revealed (cellOf b1 (row, col))"
    using assms(1) inb by (simp add: b1 cellOf_revealAt)
  have "traceInv b1 (row, col) ([(row, col)], b1, [Pushed (row, col)])"
    using inv1 start by (simp add: traceInv_def del: split_paired_All)
  then obtain b' tr where run: "cascadeLoop ([(row, col)], b1, [Pushed (row, col)]) = Inr (b', tr)"
    and inv: "traceInv b1 (row, col) ([], b', tr)"
    using cascadeLoop_traceInv by blast
  obtain b'' tr'' where "cascadeLoop ([(row, col)], b1, [Pushed (row, col)]) = Inr (b'', tr'')"
    and g: "grownFrom b1 b''"
    using cascadeLoop_grownFrom [OF grownFrom_refl [OF inv1]] by blast
  with run have g': "grownFrom b1 b'" by simp
  from inv have inv': "Board_inv b'" and d: "distinct tr" and pushed: "Pushed (row, col) \<in> set tr"
    and shown: "\<And>x. m_revealed (cellOf b' x) = (m_revealed (cellOf b1 x) \<or> Revealed x \<in> set tr)"
    by (auto simp: traceInv_def simp del: split_paired_All)
  have "isRevealed b' r c = Inr (isRevealed b1 r c = Inr True \<or> Revealed (r, c) \<in> set tr)"
    if "inBounds b r c" for r c
  proof -
    have "inBounds b1 r c" using that by (simp add: b1)
    moreover then have "inBounds b' r c" using g' by (simp add: grownFrom_inBounds)
    ultimately show ?thesis
      using inv1 inv' shown [of "(r, c)"] by (simp add: isRevealed_cellOf)
  qed
  then show ?thesis
    using run d pushed by (simp add: cascadeReveal_def)
qed

text \<open>
  On the 2 x 2 board without mines the cascade from \<open>(0, 0)\<close> reveals and queues each of
  the other three cells once.
\<close>

theorem cascadeReveal_once_witness:
  "Board_inv board2x2 \<and>
   setRevealed board2x2 0 0 True =
     Inr (board2x2\<lparr>m_cells := [[shownCell False, hiddenCell False],
                                [hiddenCell False, hiddenCell False]]\<rparr>) \<and>
   cascadeReveal (board2x2\<lparr>m_cells := [[shownCell False, hiddenCell False],
                                       [hiddenCell False, hiddenCell False]]\<rparr>) 0 0 =
     Inr (board2x2\<lparr>m_cells := [[shownCell False, shownCell False],
                                [shownCell False, shownCell False]]\<rparr>,
          [Pushed (0, 0), Revealed (0, 1), Pushed (0, 1), Revealed (1, 0), Pushed (1, 0),
           Revealed (1, 1), Pushed (1, 1)]) \<and>
   distinct [Pushed (0, 0), Revealed (0, 1), Pushed (0, 1), Revealed (1, 0), Pushed (1, 0),
           Revealed (1, 1), Pushed (1, 1)]"
proof -
  have inv: "Board_inv board2x2" by code_simp
  have start: "setRevealed board2x2 0 0 True =
     Inr (board2x2\<lparr>m_cells := [[shownCell False, hiddenCell False],
                                [hiddenCell False, hiddenCell False]]\<rparr>)"
    by code_simp
  have run: "cascadeReveal (board2x2\<lparr>m_cells := [[shownCell False, hiddenCell False],
                                       [hiddenCell False, hiddenCell False]]\<rparr>) 0 0 =
     Inr (board2x2\<lparr>m_cells := [[shownCell False, shownCell False],
                                [shownCell False, shownCell False]]\<rparr>,
          [Pushed (0, 0), Revealed (0, 1), Pushed (0, 1), Revealed (1, 0), Pushed (1, 0),
           Revealed (1, 1), Pushed (1, 1)])"
    by code_simp
  show ?thesis
    using cascadeReveal_once [OF inv start] inv start run by simp
qed

subsection \<open>The cascade reveals no mine\<close>

lemma zero_count_neighbours:
  assumes "Board_inv b" "neighborMineCount b (fst p) (snd p) = Inr 0" "d \<in> set offsets"
  shows "\<not> m_hasMine (cellOf b (fst p + fst d, snd p + snd d))"
proof
  assume mine: "m_hasMine (cellOf b (fst p + fst d, snd p + snd d))"
  then have inb: "inBounds b (fst p + fst d) (snd p + snd d)"
    by (auto simp: cellOf_def Cell_default_def split: if_splits)
  let ?P = "\<lambda>(dr, dc). inBounds b (fst p + dr) (snd p + dc) \<and>
    isMine b (fst p + dr) (snd p + dc) = Inr True"
  have "?P d"
    using mine inb assms(1) by (cases d) (simp add: isMine_cellOf)
  with assms(3) have "d \<in> set (filter ?P offsets)" by simp
  then have "filter ?P offsets \<noteq> []" by (metis empty_iff empty_set)
  then show False
    using assms(2) by (simp add: neighborMineCount_def countLoop_filter [OF assms(1)])
qed

lemma visit_safeInv:
  assumes "Board_inv b1" "neighborMineCount b1 (fst p) (snd p) = Inr 0" "d \<in> set offsets"
    and "safeInv b1 s"
  shows "safeInv b1 (visit p s d)"
proof -
  obtain q b tr where s: "s = (q, b, tr)" by (cases s)
  from assms(4) have g: "grownFrom b1 b"
    and zero: "\<forall>x \<in> set q. neighborMineCount b1 (fst x) (snd x) = Inr 0"
    and safe: "\<forall>x. m_revealed (cellOf b x) \<and> \<not> m_revealed (cellOf b1 x) \<longrightarrow> \<not> m_hasMine (cellOf b1 x)"
    unfolding s safeInv_def prod.case by blast+
  from g have inv: "Board_inv b" by (simp add: grownFrom_def)
  let ?c = "(fst p + fst d, snd p + snd d)"
  have nomine: "\<not> m_hasMine (cellOf b1 ?c)"
    by (rule zero_count_neighbours [OF assms(1-3)])
  show ?thesis
  proof (cases rule: visit_cases [of p q b tr d])
    case skip
    with assms(4) show ?thesis by (simp add: s)
  next
    case (push c)
    have g': "grownFrom b1 (revealAt b c)"
      using g push(2) by (rule grownFrom_revealAt)
    have "neighborMineCount b1 (fst c) (snd c) = Inr 0"
      using push(5) grownFrom_count [OF assms(1) g'] by simp
    moreover have "\<forall>x. m_revealed (cellOf (revealAt b c) x) \<and> \<not> m_revealed (cellOf b1 x) \<longrightarrow>
        \<not> m_hasMine (cellOf b1 x)"
      using safe nomine push(1,2) inv by (auto simp: cellOf_revealAt simp del: split_paired_All)
    ultimately show ?thesis
      using g' zero unfolding s push(6) safeInv_def prod.case by auto
  next
    case (reveal c)
    have g': "grownFrom b1 (revealAt b c)"
      using g reveal(2) by (rule grownFrom_revealAt)
    moreover have "\<forall>x. m_revealed (cellOf (revealAt b c) x) \<and> \<not> m_revealed (cellOf b1 x) \<longrightarrow>
        \<not> m_hasMine (cellOf b1 x)"
      using safe nomine reveal(1,2) inv by (auto simp: cellOf_revealAt simp del: split_paired_All)
    ultimately show ?thesis
      using zero unfolding s reveal(6) safeInv_def prod.case by auto
  qed
qed

lemma cascadeLoop_safeInv:
  assumes "Board_inv b1" "safeInv b1 (q, b, tr)"
  shows "\<exists>b' tr'. cascadeLoop (q, b, tr) = Inr (b', tr') \<and> safeInv b1 ([], b', tr')"
proof -
  have "\<exists>b' tr'. cascadeLoop (q, b, tr) = Inr (b', tr') \<and> Board_inv b' \<and>
      safeInv b1 ([], b', tr')"
  proof (rule cascadeLoop_rule [where I = "safeInv b1"])
    show "Board_inv (fst (snd (q, b, tr)))"
      using assms(2) by (simp add: safeInv_def grownFrom_def)
    show "safeInv b1 (q, b, tr)" by (rule assms)
    show "safeInv b1 (foldl (visit p) (q', b', tr') offsets)"
      if "safeInv b1 (p # q', b', tr')" for p q' b' tr'
    proof (rule foldl_visit_rule [where J = "safeInv b1"])
      show "safeInv b1 (q', b', tr')"
        using that unfolding safeInv_def prod.case by simp
      have "neighborMineCount b1 (fst p) (snd p) = Inr 0"
        using that unfolding safeInv_def prod.case by simp
      then show "safeInv b1 (visit p s d)" if "d \<in> set offsets" "safeInv b1 s" for s d
        using visit_safeInv [OF assms(1) _ that] by simp
    qed
  qed
  then show ?thesis by auto
qed

text \<open>
  C10. A cascade started from a cell with no mined neighbour returns, and every cell it
  reveals is a cell without a mine; it moves no mine.
\<close>

theorem cascadeReveal_no_mine:
  assumes "Board_inv b" "neighborMineCount b row col = Inr 0"
  shows "\<exists>b' tr. cascadeReveal b row col = Inr (b', tr) \<and>
           (\<forall>r c. inBounds b r c \<longrightarrow> isMine b' r c = isMine b r c) \<and>
           (\<forall>r c. inBounds b r c \<and> isRevealed b r c = Inr False \<and> isRevealed b' r c = Inr True \<longrightarrow>
              isMine b r c = Inr False)"
proof -
  have "safeInv b ([(row, col)], b, [Pushed (row, col)])"
    using assms by (simp add: safeInv_def grownFrom_refl)
  then obtain b' tr where run: "cascadeLoop ([(row, col)], b, [Pushed (row, col)]) = Inr (b', tr)"
    and inv: "safeInv b ([], b', tr)"
    using cascadeLoop_safeInv [OF assms(1)] by blast
  from inv have g: "grownFrom b b'"
    and safe: "\<And>x. m_revealed (cellOf b' x) \<Longrightarrow> \<not> m_revealed (cellOf b x) \<Longrightarrow> \<not> m_hasMine (cellOf b x)"
    unfolding safeInv_def prod.case by blast+
  from g have inv': "Board_inv b'" and mines: "\<And>x. m_hasMine (cellOf b' x) = m_hasMine (cellOf b x)"
    by (simp_all add: grownFrom_def del: split_paired_All)
  have inb: "inBounds b' r c = inBounds b r c" for r c
    using g by (rule grownFrom_inBounds)
  have 1: "isMine b' r c = isMine b r c" if "inBounds b r c" for r c
    using that inb [of r c] assms(1) inv' mines by (simp add: isMine_cellOf)
  have 2: "isMine b r c = Inr False"
    if "inBounds b r c \<and> isRevealed b r c = Inr False \<and> isRevealed b' r c = Inr True" for r c
    using that inb [of r c] assms(1) inv' safe [of "(r, c)"]
    by (auto simp: isMine_cellOf isRevealed_cellOf)
  show ?thesis
    using run 1 2 unfolding cascadeReveal_def by blast
qed

theorem cascadeReveal_no_mine_witness:
  "Board_inv board1x3 \<and> neighborMineCount board1x3 0 0 = Inr 0 \<and>
   cascadeReveal board1x3 0 0 =
     Inr (board1x3\<lparr>m_cells := [[hiddenCell False, shownCell False, hiddenCell True]]\<rparr>,
          [Pushed (0, 0), Revealed (0, 1)]) \<and>
   isMine board1x3 0 1 = Inr False \<and> isMine board1x3 0 2 = Inr True \<and>
   isRevealed (board1x3\<lparr>m_cells := [[hiddenCell False, shownCell False, hiddenCell True]]\<rparr>) 0 2 =
     Inr False"
proof -
  have inv: "Board_inv board1x3" by code_simp
  have zero: "neighborMineCount board1x3 0 0 = Inr 0" by code_simp
  have run: "cascadeReveal board1x3 0 0 =
     Inr (board1x3\<lparr>m_cells := [[hiddenCell False, shownCell False, hiddenCell True]]\<rparr>,
          [Pushed (0, 0), Revealed (0, 1)])"
    by code_simp
  have cells: "isMine board1x3 0 1 = Inr False" "isMine board1x3 0 2 = Inr True"
    "isRevealed (board1x3\<lparr>m_cells := [[hiddenCell False, shownCell False, hiddenCell True]]\<rparr>) 0 2 =
     Inr False"
    by code_simp+
  show ?thesis
    using cascadeReveal_no_mine [OF inv zero] inv zero run cells by simp
qed

subsection \<open>What the cascade reveals\<close>

lemma adjacent_offsets: "adjacent p c \<longleftrightarrow> (fst c - fst p, snd c - snd p) \<in> set offsets"
  by (simp add: adjacent_def offsets_set)

lemma adjacent_offset: "d \<in> set offsets \<Longrightarrow> adjacent p (fst p + fst d, snd p + snd d)"
  by (cases d) (simp add: adjacent_offsets)

lemma grownFrom_shown:
  "grownFrom b1 b \<Longrightarrow> m_revealed (cellOf b1 x) \<Longrightarrow> m_revealed (cellOf b x)"
  by (simp add: grownFrom_def del: split_paired_All)

lemma grownFrom_mark: "grownFrom b1 b \<Longrightarrow> m_mark (cellOf b x) = m_mark (cellOf b1 x)"
  by (simp add: grownFrom_def del: split_paired_All)

lemma saturated_mono:
  "grownFrom b b' \<Longrightarrow> saturated b1 b x \<Longrightarrow> saturated b1 b' x"
  unfolding saturated_def using grownFrom_shown by blast

lemma visit_soundInv:
  assumes inv1: "Board_inv b1" and p: "spreads b1 t p" and d: "d \<in> set offsets"
    and inv: "soundInv b1 t s"
  shows "soundInv b1 t (visit p s d)"
proof -
  obtain q b tr where s: "s = (q, b, tr)" by (cases s)
  from inv have g: "grownFrom b1 b" and qs: "\<forall>x \<in> set q. spreads b1 t x"
    and snd: "\<forall>x. m_revealed (cellOf b x) \<longrightarrow>
           m_revealed (cellOf b1 x) \<or>
           inBounds b1 (fst x) (snd x) \<and> m_mark (cellOf b1 x) \<noteq> Flag \<and>
           (\<exists>y. spreads b1 t y \<and> adjacent y x)"
    unfolding s soundInv_def prod.case by blast+
  from g have invb: "Board_inv b" by (simp add: grownFrom_def)
  have new: "m_revealed (cellOf (revealAt b c) x) \<longrightarrow>
           m_revealed (cellOf b1 x) \<or>
           inBounds b1 (fst x) (snd x) \<and> m_mark (cellOf b1 x) \<noteq> Flag \<and>
           (\<exists>y. spreads b1 t y \<and> adjacent y x)"
    if c: "c = (fst p + fst d, snd p + snd d)" and inb: "inBounds b (fst c) (snd c)"
      and mark: "m_mark (cellOf b c) \<noteq> Flag" for c x
  proof (cases "x = c")
    case True
    have "adjacent p c" unfolding c using d by (rule adjacent_offset)
    moreover have "inBounds b1 (fst c) (snd c)"
      using inb grownFrom_inBounds [OF g] by simp
    moreover have "m_mark (cellOf b1 c) \<noteq> Flag"
      using mark grownFrom_mark [OF g] by simp
    ultimately show ?thesis
      using p True by blast
  next
    case False
    then show ?thesis
      using snd invb inb by (simp add: cellOf_revealAt del: split_paired_All)
  qed
  show ?thesis
  proof (cases rule: visit_cases [of p q b tr d])
    case skip
    with inv show ?thesis by (simp add: s)
  next
    case (push c)
    have g': "grownFrom b1 (revealAt b c)"
      using g push(2) by (rule grownFrom_revealAt)
    have inb1: "inBounds b1 (fst c) (snd c)"
      using push(2) grownFrom_inBounds [OF g] by simp
    have "spreads b1 t c"
    proof (rule spreads.step [OF p])
      show "adjacent p c" unfolding push(1) using d by (rule adjacent_offset)
      show "inBounds b1 (fst c) (snd c)" by (rule inb1)
      have "\<not> m_revealed (cellOf b1 c)"
        using push(3) grownFrom_shown [OF g] by blast
      then show "isRevealed b1 (fst c) (snd c) = Inr False"
        using inv1 inb1 by (simp add: isRevealed_cellOf)
      have "m_mark (cellOf b1 c) \<noteq> Flag"
        using push(4) grownFrom_mark [OF g] by simp
      then show "markState b1 (fst c) (snd c) \<noteq> Inr Flag"
        using inv1 inb1 by (simp add: markState_cellOf)
      show "neighborMineCount b1 (fst c) (snd c) = Inr 0"
        using push(5) grownFrom_count [OF inv1 g'] by simp
    qed
    then show ?thesis
      using g' qs new [OF push(1,2,4)] unfolding s push(6) soundInv_def prod.case by auto
  next
    case (reveal c)
    have g': "grownFrom b1 (revealAt b c)"
      using g reveal(2) by (rule grownFrom_revealAt)
    then show ?thesis
      using qs new [OF reveal(1,2,4)] unfolding s reveal(6) soundInv_def prod.case by auto
  qed
qed

lemma cascadeLoop_soundInv:
  assumes "Board_inv b1" "soundInv b1 t (q, b, tr)"
  shows "\<exists>b' tr'. cascadeLoop (q, b, tr) = Inr (b', tr') \<and> soundInv b1 t ([], b', tr')"
proof -
  have "\<exists>b' tr'. cascadeLoop (q, b, tr) = Inr (b', tr') \<and> Board_inv b' \<and>
      soundInv b1 t ([], b', tr')"
  proof (rule cascadeLoop_rule [where I = "soundInv b1 t"])
    show "Board_inv (fst (snd (q, b, tr)))"
      using assms(2) by (simp add: soundInv_def grownFrom_def)
    show "soundInv b1 t (q, b, tr)" by (rule assms)
    show "soundInv b1 t (foldl (visit p) (q', b', tr') offsets)"
      if "soundInv b1 t (p # q', b', tr')" for p q' b' tr'
    proof (rule foldl_visit_rule [where J = "soundInv b1 t"])
      show "soundInv b1 t (q', b', tr')"
        using that unfolding soundInv_def prod.case by simp
      have "spreads b1 t p"
        using that unfolding soundInv_def prod.case by simp
      then show "soundInv b1 t (visit p s d)" if "d \<in> set offsets" "soundInv b1 t s" for s d
        using visit_soundInv [OF assms(1) _ that] by simp
    qed
  qed
  then show ?thesis by auto
qed

lemma visit_fullInv:
  assumes inv1: "Board_inv b1" and inv: "fullInv b1 t (p # q, b, tr)"
    and v: "visit p (q, b, tr) d = (q', b', tr')"
  shows "fullInv b1 t (p # q', b', tr')"
proof -
  from inv have g: "grownFrom b1 b"
    and full: "\<And>x. x = t \<or>
             inBounds b1 (fst x) (snd x) \<and> m_revealed (cellOf b x) \<and> \<not> m_revealed (cellOf b1 x) \<and>
             neighborMineCount b1 (fst x) (snd x) = Inr 0 \<Longrightarrow>
           x \<in> set (p # q) \<or> saturated b1 b x"
    unfolding fullInv_def prod.case by blast+
  from g have invb: "Board_inv b" by (simp add: grownFrom_def)
  have grow: "x \<in> set (p # qq) \<or> saturated b1 (revealAt b c) x"
    if inb: "inBounds b (fst c) (snd c)" and qq: "set q \<subseteq> set qq"
      and c: "neighborMineCount b1 (fst c) (snd c) = Inr 0 \<Longrightarrow> c \<in> set qq"
      and x: "x = t \<or>
             inBounds b1 (fst x) (snd x) \<and> m_revealed (cellOf (revealAt b c) x) \<and>
             \<not> m_revealed (cellOf b1 x) \<and> neighborMineCount b1 (fst x) (snd x) = Inr 0"
    for c qq x
  proof -
    have gg: "grownFrom b (revealAt b c)"
      using grownFrom_refl [OF invb] inb by (rule grownFrom_revealAt)
    consider "x = t \<or>
             inBounds b1 (fst x) (snd x) \<and> m_revealed (cellOf b x) \<and> \<not> m_revealed (cellOf b1 x) \<and>
             neighborMineCount b1 (fst x) (snd x) = Inr 0"
      | "x = c" "neighborMineCount b1 (fst c) (snd c) = Inr 0"
      using x invb inb by (cases "x = c") (auto simp: cellOf_revealAt)
    then show ?thesis
    proof cases
      case 1
      from full [OF 1] show ?thesis
        using qq saturated_mono [OF gg, of b1 x] by auto
    next
      case 2
      then show ?thesis using c by simp
    qed
  qed
  show ?thesis
  proof (cases rule: visit_cases [of p q b tr d])
    case skip
    with inv v show ?thesis by simp
  next
    case (push c)
    from push(6) v have eq: "q' = q @ [c]" "b' = revealAt b c" by simp_all
    have g': "grownFrom b1 (revealAt b c)"
      using g push(2) by (rule grownFrom_revealAt)
    have "x \<in> set (p # q @ [c]) \<or> saturated b1 (revealAt b c) x"
      if "x = t \<or>
             inBounds b1 (fst x) (snd x) \<and> m_revealed (cellOf (revealAt b c) x) \<and>
             \<not> m_revealed (cellOf b1 x) \<and> neighborMineCount b1 (fst x) (snd x) = Inr 0" for x
    proof (rule grow [OF push(2)])
      show "set q \<subseteq> set (q @ [c])" by auto
      show "c \<in> set (q @ [c])" by simp
    qed (rule that)
    then show ?thesis
      unfolding eq fullInv_def prod.case using g' by blast
  next
    case (reveal c)
    from reveal(6) v have eq: "q' = q" "b' = revealAt b c" by simp_all
    have g': "grownFrom b1 (revealAt b c)"
      using g reveal(2) by (rule grownFrom_revealAt)
    have "neighborMineCount b1 (fst c) (snd c) \<noteq> Inr 0"
      using reveal(5) grownFrom_count [OF inv1 g'] by simp
    then have "x \<in> set (p # q) \<or> saturated b1 (revealAt b c) x"
      if "x = t \<or>
             inBounds b1 (fst x) (snd x) \<and> m_revealed (cellOf (revealAt b c) x) \<and>
             \<not> m_revealed (cellOf b1 x) \<and> neighborMineCount b1 (fst x) (snd x) = Inr 0" for x
      using grow [OF reveal(2) subset_refl _ that] by blast
    then show ?thesis
      unfolding eq fullInv_def prod.case using g' by blast
  qed
qed

lemma foldl_visit_fullInv:
  assumes "Board_inv b1" "fullInv b1 t (p # fst s, snd s)"
  shows "fullInv b1 t (p # fst (foldl (visit p) s ds), snd (foldl (visit p) s ds))"
proof (rule foldl_visit_rule [where J = "\<lambda>s. fullInv b1 t (p # fst s, snd s)"])
  show "fullInv b1 t (p # fst s, snd s)" by (rule assms)
  show "fullInv b1 t (p # fst (visit p s d), snd (visit p s d))"
    if "fullInv b1 t (p # fst s, snd s)" for s d
    using visit_fullInv [OF assms(1), of t p "fst s" "fst (snd s)" "snd (snd s)" d
        "fst (visit p s d)" "fst (snd (visit p s d))" "snd (snd (visit p s d))"] that
    by simp
qed

lemma visit_hits:
  assumes "Board_inv b" "inBounds b (fst p + fst d) (snd p + snd d)"
    "m_mark (cellOf b (fst p + fst d, snd p + snd d)) \<noteq> Flag"
  shows "m_revealed (cellOf (fst (snd (visit p (q, b, tr) d))) (fst p + fst d, snd p + snd d))"
  using assms
  by (cases rule: visit_cases [of p q b tr d]) (auto simp: cellOf_revealAt)

lemma foldl_visit_hits:
  assumes "grownFrom b1 (fst (snd s))" "d \<in> set ds"
    "inBounds b1 (fst p + fst d) (snd p + snd d)"
    "m_mark (cellOf b1 (fst p + fst d, snd p + snd d)) \<noteq> Flag"
  shows "m_revealed (cellOf (fst (snd (foldl (visit p) s ds))) (fst p + fst d, snd p + snd d))"
  using assms(1,2)
proof (induction ds arbitrary: s)
  case Nil
  then show ?case by simp
next
  case (Cons e ds)
  obtain q b tr where s: "s = (q, b, tr)" by (cases s)
  from Cons.prems(1) have g: "grownFrom b1 b" by (simp add: s)
  have g1: "grownFrom b1 (fst (snd (visit p s e)))"
    using Cons.prems(1) by (rule visit_grownFrom)
  show ?case
  proof (cases "d = e")
    case True
    have "m_revealed (cellOf (fst (snd (visit p s e))) (fst p + fst d, snd p + snd d))"
      unfolding s True [symmetric]
    proof (rule visit_hits)
      show "Board_inv b" using g by (simp add: grownFrom_def)
      show "inBounds b (fst p + fst d) (snd p + snd d)"
        using assms(3) grownFrom_inBounds [OF g] by simp
      show "m_mark (cellOf b (fst p + fst d, snd p + snd d)) \<noteq> Flag"
        using assms(4) grownFrom_mark [OF g] by simp
    qed
    moreover have "grownFrom (fst (snd (visit p s e))) (fst (snd (foldl (visit p) (visit p s e) ds)))"
      using g1 by (intro foldl_visit_grownFrom grownFrom_refl) (simp add: grownFrom_def)
    ultimately show ?thesis
      using grownFrom_shown by simp
  next
    case False
    with Cons.prems(2) have "d \<in> set ds" by simp
    from Cons.IH [OF g1 this] show ?thesis by simp
  qed
qed

lemma cascadeLoop_fullInv:
  assumes "Board_inv b1" "fullInv b1 t (q, b, tr)"
  shows "\<exists>b' tr'. cascadeLoop (q, b, tr) = Inr (b', tr') \<and> fullInv b1 t ([], b', tr')"
proof -
  have "\<exists>b' tr'. cascadeLoop (q, b, tr) = Inr (b', tr') \<and> Board_inv b' \<and>
      fullInv b1 t ([], b', tr')"
  proof (rule cascadeLoop_rule [where I = "fullInv b1 t"])
    show "Board_inv (fst (snd (q, b, tr)))"
      using assms(2) by (simp add: fullInv_def grownFrom_def)
    show "fullInv b1 t (q, b, tr)" by (rule assms)
    show "fullInv b1 t (foldl (visit p) (q', b', tr') offsets)"
      if inv: "fullInv b1 t (p # q', b', tr')" for p q' b' tr'
    proof -
      obtain q2 b2 tr2 where f: "foldl (visit p) (q', b', tr') offsets = (q2, b2, tr2)"
        by (cases "foldl (visit p) (q', b', tr') offsets")
      from inv have g: "grownFrom b1 b'"
        unfolding fullInv_def prod.case by simp
      have 1: "fullInv b1 t (p # q2, b2, tr2)"
        using foldl_visit_fullInv [OF assms(1), of t p "(q', b', tr')" offsets] inv f by simp
      have 2: "saturated b1 b2 p"
        unfolding saturated_def
        using foldl_visit_hits [of b1 "(q', b', tr')" _ offsets p] g f by auto
      from 1 2 have "fullInv b1 t (q2, b2, tr2)"
        unfolding fullInv_def prod.case by auto
      then show ?thesis by (simp add: f)
    qed
  qed
  then show ?thesis by auto
qed

lemma cascadeReveal_reach:
  assumes inv1: "Board_inv b1"
  shows "\<exists>b' tr. cascadeReveal b1 (fst t) (snd t) = Inr (b', tr) \<and> grownFrom b1 b' \<and>
    (\<forall>x. m_revealed (cellOf b' x) =
       (m_revealed (cellOf b1 x) \<or>
        inBounds b1 (fst x) (snd x) \<and> m_mark (cellOf b1 x) \<noteq> Flag \<and>
        (\<exists>y. spreads b1 t y \<and> adjacent y x)))"
proof -
  have "soundInv b1 t ([t], b1, [Pushed t])"
    unfolding soundInv_def prod.case
    using grownFrom_refl [OF inv1] spreads.start [of b1 t] by simp
  then obtain b' tr where run: "cascadeLoop ([t], b1, [Pushed t]) = Inr (b', tr)"
    and sound: "soundInv b1 t ([], b', tr)"
    using cascadeLoop_soundInv [OF inv1] by blast
  have "fullInv b1 t ([t], b1, [Pushed t])"
    unfolding fullInv_def prod.case
    using grownFrom_refl [OF inv1] by auto
  then have full: "fullInv b1 t ([], b', tr)"
    using cascadeLoop_fullInv [OF inv1, of t "[t]" b1 "[Pushed t]"] run by simp
  from sound have g: "grownFrom b1 b'"
    and only: "\<And>x. m_revealed (cellOf b' x) \<Longrightarrow>
           m_revealed (cellOf b1 x) \<or>
           inBounds b1 (fst x) (snd x) \<and> m_mark (cellOf b1 x) \<noteq> Flag \<and>
           (\<exists>y. spreads b1 t y \<and> adjacent y x)"
    unfolding soundInv_def prod.case by blast+
  from full have sat: "\<And>x. x = t \<or>
             inBounds b1 (fst x) (snd x) \<and> m_revealed (cellOf b' x) \<and> \<not> m_revealed (cellOf b1 x) \<and>
             neighborMineCount b1 (fst x) (snd x) = Inr 0 \<Longrightarrow> saturated b1 b' x"
    unfolding fullInv_def prod.case by auto
  have hit: "m_revealed (cellOf b' c)"
    if "saturated b1 b' y" "adjacent y c" "inBounds b1 (fst c) (snd c)" "m_mark (cellOf b1 c) \<noteq> Flag"
    for y c
    using that unfolding saturated_def adjacent_offsets by fastforce
  have all: "saturated b1 b' y" if "spreads b1 t y" for y
    using that
  proof (induction rule: spreads.induct)
    case start
    show ?case by (rule sat) simp
  next
    case (step p c)
    have "m_mark (cellOf b1 c) \<noteq> Flag" "\<not> m_revealed (cellOf b1 c)"
      using step.hyps(3-5) inv1 by (simp_all add: markState_cellOf isRevealed_cellOf)
    moreover from this have "m_revealed (cellOf b' c)"
      using hit [OF step.IH step.hyps(2,3)] by simp
    ultimately show ?case
      using step.hyps(3,6) by (intro sat) simp
  qed
  have "m_revealed (cellOf b' x) =
       (m_revealed (cellOf b1 x) \<or>
        inBounds b1 (fst x) (snd x) \<and> m_mark (cellOf b1 x) \<noteq> Flag \<and>
        (\<exists>y. spreads b1 t y \<and> adjacent y x))" for x
    using only [of x] grownFrom_shown [OF g, of x] hit [of _ x] all by blast
  then show ?thesis
    using run g unfolding cascadeReveal_def by simp
qed

lemma spreads_revealAt:
  assumes "Board_inv b" "inBounds b (fst t) (snd t)"
  shows "spreads (revealAt b t) t x = spreads b t x"
proof
  have inv': "Board_inv (revealAt b t)" using assms(1) by (rule Board_inv_revealAt)
  have cnt: "neighborMineCount (revealAt b t) r c = neighborMineCount b r c" for r c
    using assms by (rule neighborMineCount_revealAt)
  {
    assume "spreads (revealAt b t) t x"
    then show "spreads b t x"
    proof (induction rule: spreads.induct)
      case start
      show ?case by (rule spreads.start)
    next
      case (step p c)
      from step.hyps(3) have inb: "inBounds b (fst c) (snd c)" by simp
      from step.hyps(4) inv' step.hyps(3) have hid: "\<not> m_revealed (cellOf (revealAt b t) c)"
        by (simp add: isRevealed_cellOf)
      then have "c \<noteq> t" using assms by (auto simp: cellOf_revealAt)
      then have same: "cellOf (revealAt b t) c = cellOf b c"
        using assms by (simp add: cellOf_revealAt)
      show ?case
      proof (rule spreads.step [OF step.IH step.hyps(2) inb])
        show "isRevealed b (fst c) (snd c) = Inr False"
          using hid same assms(1) inb by (simp add: isRevealed_cellOf)
        show "markState b (fst c) (snd c) \<noteq> Inr Flag"
          using step.hyps(5) same assms(1) inv' inb by (simp add: markState_cellOf)
        show "neighborMineCount b (fst c) (snd c) = Inr 0"
          using step.hyps(6) cnt by simp
      qed
    qed
  }
  {
    assume "spreads b t x"
    then show "spreads (revealAt b t) t x"
    proof (induction rule: spreads.induct)
      case start
      show ?case by (rule spreads.start)
    next
      case (step p c)
      show ?case
      proof (cases "c = t")
        case True
        then show ?thesis by (simp add: spreads.start)
      next
        case False
        then have same: "cellOf (revealAt b t) c = cellOf b c"
          using assms by (simp add: cellOf_revealAt)
        have inb: "inBounds (revealAt b t) (fst c) (snd c)" using step.hyps(3) by simp
        show ?thesis
        proof (rule spreads.step [OF step.IH step.hyps(2) inb])
          show "isRevealed (revealAt b t) (fst c) (snd c) = Inr False"
            using step.hyps(3,4) same assms(1) inv' by (simp add: isRevealed_cellOf)
          show "markState (revealAt b t) (fst c) (snd c) \<noteq> Inr Flag"
            using step.hyps(3,5) same assms(1) inv' by (simp add: markState_cellOf)
          show "neighborMineCount (revealAt b t) (fst c) (snd c) = Inr 0"
            using step.hyps(6) cnt by simp
        qed
      qed
    qed
  }
qed

lemma zeroRegion_spreads:
  assumes "\<forall>r c. inBounds b r c \<longrightarrow> isRevealed b r c = Inr False \<and> markState b r c \<noteq> Inr Flag"
    and "zeroRegion b t x"
  shows "spreads b t x"
  using assms(2)
proof (induction rule: zeroRegion.induct)
  case start
  show ?case by (rule spreads.start)
next
  case (step p c)
  then show ?case
    using assms(1) by (intro spreads.step [of b t p c]) simp_all
qed

lemma spreads_cases:
  "spreads b t x \<Longrightarrow> x = t \<or> (\<exists>p. spreads b t p \<and> adjacent p x)"
  by (induction rule: spreads.induct) auto

text \<open>
  C1, as the specification states it, fails: a flag stops the cascade, so cells of the
  zero-count region behind it stay hidden. On the 1 x 5 board without mines, with a flag
  on column 2, column 3 belongs to the zero-count region of column 0 and carries no flag,
  and revealing column 0 leaves it hidden.
\<close>

theorem revealCell_region_counterexample:
  "inBounds board1x5flag 0 0 \<and> isMine board1x5flag 0 0 = Inr False \<and>
   neighborMineCount board1x5flag 0 0 = Inr 0 \<and>
   zeroRegion board1x5flag (0, 0) (0, 3) \<and> markState board1x5flag 0 3 = Inr NoMark \<and>
   revealCell board1x5flag 0 0 =
     Inr (Continue, board1x5flag\<lparr>m_cells :=
       [[shownCell False, shownCell False, markedCell False Flag, hiddenCell False,
         hiddenCell False]]\<rparr>) \<and>
   isRevealed (board1x5flag\<lparr>m_cells :=
       [[shownCell False, shownCell False, markedCell False Flag, hiddenCell False,
         hiddenCell False]]\<rparr>) 0 3 = Inr False"
proof -
  have z1: "zeroRegion board1x5flag (0, 0) (0, 1)"
  proof (rule zeroRegion.step [OF zeroRegion.start])
    show "adjacent (0, 0) (0, 1)" by (simp add: adjacent_def)
    show "inBounds board1x5flag (fst (0, 1)) (snd (0, 1))" by code_simp
    show "neighborMineCount board1x5flag (fst (0, 1)) (snd (0, 1)) = Inr 0" by code_simp
  qed
  have z2: "zeroRegion board1x5flag (0, 0) (0, 2)"
  proof (rule zeroRegion.step [OF z1])
    show "adjacent (0, 1) (0, 2)" by (simp add: adjacent_def)
    show "inBounds board1x5flag (fst (0, 2)) (snd (0, 2))" by code_simp
    show "neighborMineCount board1x5flag (fst (0, 2)) (snd (0, 2)) = Inr 0" by code_simp
  qed
  have z3: "zeroRegion board1x5flag (0, 0) (0, 3)"
  proof (rule zeroRegion.step [OF z2])
    show "adjacent (0, 2) (0, 3)" by (simp add: adjacent_def)
    show "inBounds board1x5flag (fst (0, 3)) (snd (0, 3))" by code_simp
    show "neighborMineCount board1x5flag (fst (0, 3)) (snd (0, 3)) = Inr 0" by code_simp
  qed
  have "inBounds board1x5flag 0 0" "isMine board1x5flag 0 0 = Inr False"
    "neighborMineCount board1x5flag 0 0 = Inr 0" "markState board1x5flag 0 3 = Inr NoMark"
    "revealCell board1x5flag 0 0 =
     Inr (Continue, board1x5flag\<lparr>m_cells :=
       [[shownCell False, shownCell False, markedCell False Flag, hiddenCell False,
         hiddenCell False]]\<rparr>)"
    "isRevealed (board1x5flag\<lparr>m_cells :=
       [[shownCell False, shownCell False, markedCell False Flag, hiddenCell False,
         hiddenCell False]]\<rparr>) 0 3 = Inr False"
    by code_simp+
  with z3 show ?thesis by simp
qed

text \<open>
  C1, amended. Revealing a safe cell of the grid with no mined neighbour returns and
  leaves revealed exactly: the cells revealed before, the target, and every neighbour
  without a flag of a point the cascade spreads to, that is a point linked to the target
  by a chain of neighbours that were hidden, not flagged and without mined neighbour. No
  mine and no mark changes. So a hidden flagged cell (other than the target) stays hidden
  and stops the spread, and a question-marked neighbour of a point reached is revealed.
  When no cell of the grid is revealed or flagged before, every cell of the connected
  zero-count region of the target and every neighbour of one is revealed.
\<close>

theorem revealCell_cascade:
  assumes "Board_inv b" "inBounds b row col" "isMine b row col = Inr False"
    "neighborMineCount b row col = Inr 0"
  shows "\<exists>out b'. revealCell b row col = Inr (out, b') \<and>
    (\<forall>r c. inBounds b r c \<longrightarrow>
       isMine b' r c = isMine b r c \<and> markState b' r c = markState b r c \<and>
       isRevealed b' r c =
         Inr (isRevealed b r c = Inr True \<or> (r, c) = (row, col) \<or>
              markState b r c \<noteq> Inr Flag \<and> (\<exists>p. spreads b (row, col) p \<and> adjacent p (r, c)))) \<and>
    (\<forall>r c. inBounds b r c \<and> isRevealed b r c = Inr False \<and> markState b r c = Inr Flag \<and>
       (r, c) \<noteq> (row, col) \<longrightarrow> isRevealed b' r c = Inr False) \<and>
    (\<forall>r c p. inBounds b r c \<and> markState b r c = Inr Question \<and>
       spreads b (row, col) p \<and> adjacent p (r, c) \<longrightarrow> isRevealed b' r c = Inr True) \<and>
    ((\<forall>r c. inBounds b r c \<longrightarrow> isRevealed b r c = Inr False \<and> markState b r c \<noteq> Inr Flag) \<longrightarrow>
     (\<forall>p r c. zeroRegion b (row, col) p \<and> inBounds b r c \<and> ((r, c) = p \<or> adjacent p (r, c)) \<longrightarrow>
        isRevealed b' r c = Inr True))"
proof -
  let ?t = "(row, col)"
  let ?b1 = "revealAt b ?t"
  have inbt: "inBounds b (fst ?t) (snd ?t)" using assms(2) by simp
  have inv1: "Board_inv ?b1" using assms(1) by (rule Board_inv_revealAt)
  obtain b' where run: "revealCell b row col =
      Inr (if allNonMinesRevealed b' = Inr True then Win else Continue, b')"
    and g: "grownFrom b b'"
    and casc: "\<exists>tr. cascadeReveal ?b1 row col = Inr (b', tr)"
    using revealCell_safe [OF assms(1-3)] assms(4) by auto
  obtain b'' tr where "cascadeReveal ?b1 (fst ?t) (snd ?t) = Inr (b'', tr)"
    and reach: "\<forall>x. m_revealed (cellOf b'' x) =
       (m_revealed (cellOf ?b1 x) \<or>
        inBounds ?b1 (fst x) (snd x) \<and> m_mark (cellOf ?b1 x) \<noteq> Flag \<and>
        (\<exists>y. spreads ?b1 ?t y \<and> adjacent y x))"
    using cascadeReveal_reach [OF inv1, of ?t] by blast
  with casc have "b'' = b'" by auto
  with reach have shown: "m_revealed (cellOf b' x) =
       (m_revealed (cellOf b x) \<or> x = ?t \<or>
        inBounds b (fst x) (snd x) \<and> m_mark (cellOf b x) \<noteq> Flag \<and>
        (\<exists>y. spreads b ?t y \<and> adjacent y x))" for x
    using assms(1) inbt
    by (auto simp: cellOf_revealAt spreads_revealAt [OF assms(1) inbt] simp del: split_paired_All)
  from g have inv': "Board_inv b'"
    and mines: "\<And>x. m_hasMine (cellOf b' x) = m_hasMine (cellOf b x)"
    and marks: "\<And>x. m_mark (cellOf b' x) = m_mark (cellOf b x)"
    by (simp_all add: grownFrom_def del: split_paired_All)
  have inb': "inBounds b' r c = inBounds b r c" for r c
    using g by (rule grownFrom_inBounds)
  have cells: "isMine b' r c = isMine b r c \<and> markState b' r c = markState b r c \<and>
       isRevealed b' r c =
         Inr (isRevealed b r c = Inr True \<or> (r, c) = (row, col) \<or>
              markState b r c \<noteq> Inr Flag \<and> (\<exists>p. spreads b (row, col) p \<and> adjacent p (r, c)))"
    if "inBounds b r c" for r c
    using that inb' [of r c] assms(1) inv' mines marks shown [of "(r, c)"]
    by (simp add: isMine_cellOf markState_cellOf isRevealed_cellOf)
  have flags: "isRevealed b' r c = Inr False"
    if "inBounds b r c \<and> isRevealed b r c = Inr False \<and> markState b r c = Inr Flag \<and>
       (r, c) \<noteq> (row, col)" for r c
    using that cells [of r c] by simp
  have questions: "isRevealed b' r c = Inr True"
    if "inBounds b r c \<and> markState b r c = Inr Question \<and>
       spreads b (row, col) p \<and> adjacent p (r, c)" for r c p
  proof -
    from that have "\<exists>p. spreads b (row, col) p \<and> adjacent p (r, c)" by blast
    with that cells [of r c] show ?thesis by simp
  qed
  have region: "isRevealed b' r c = Inr True"
    if fresh: "\<forall>r c. inBounds b r c \<longrightarrow> isRevealed b r c = Inr False \<and> markState b r c \<noteq> Inr Flag"
      and p: "zeroRegion b (row, col) p \<and> inBounds b r c \<and> ((r, c) = p \<or> adjacent p (r, c))"
    for p r c
  proof -
    from p have sp: "spreads b ?t p"
      using zeroRegion_spreads [OF fresh] by blast
    from p have inb: "inBounds b r c" by simp
    from fresh inb have nf: "markState b r c \<noteq> Inr Flag" by blast
    have "(r, c) = ?t \<or> (\<exists>y. spreads b ?t y \<and> adjacent y (r, c))"
      using p sp spreads_cases [OF sp] by blast
    then show ?thesis
      using cells [OF inb] nf by simp
  qed
  show ?thesis
    using run cells flags questions region by blast
qed

theorem revealCell_cascade_witness:
  "Board_inv board3x3marks \<and> inBounds board3x3marks 0 0 \<and>
   isMine board3x3marks 0 0 = Inr False \<and> neighborMineCount board3x3marks 0 0 = Inr 0 \<and>
   revealCell board3x3marks 0 0 =
     Inr (Continue, board3x3marks\<lparr>m_cells :=
       [[shownCell False, shownCell False, shownCell False],
        [shownCell False, \<lparr>m_hasMine = False, m_revealed = True, m_mark = Question\<rparr>,
         markedCell False Flag],
        [shownCell False, shownCell False, hiddenCell True]]\<rparr>) \<and>
   (\<exists>out b'. revealCell board3x3marks 0 0 = Inr (out, b') \<and>
      isRevealed b' 1 1 = Inr True \<and> isRevealed b' 1 2 = Inr False)"
proof -
  have inv: "Board_inv board3x3marks" by code_simp
  have inb: "inBounds board3x3marks 0 0" by code_simp
  have safe: "isMine board3x3marks 0 0 = Inr False" by code_simp
  have zero: "neighborMineCount board3x3marks 0 0 = Inr 0" by code_simp
  have run: "revealCell board3x3marks 0 0 =
     Inr (Continue, board3x3marks\<lparr>m_cells :=
       [[shownCell False, shownCell False, shownCell False],
        [shownCell False, \<lparr>m_hasMine = False, m_revealed = True, m_mark = Question\<rparr>,
         markedCell False Flag],
        [shownCell False, shownCell False, hiddenCell True]]\<rparr>)"
    by code_simp
  have q: "inBounds board3x3marks 1 1" "markState board3x3marks 1 1 = Inr Question"
    "adjacent (0, 0) (1, 1)"
    by (code_simp, code_simp, simp add: adjacent_def)
  have f: "inBounds board3x3marks 1 2" "isRevealed board3x3marks 1 2 = Inr False"
    "markState board3x3marks 1 2 = Inr Flag"
    by code_simp+
  obtain out b' where r: "revealCell board3x3marks 0 0 = Inr (out, b')"
    and flags: "\<forall>r c. inBounds board3x3marks r c \<and> isRevealed board3x3marks r c = Inr False \<and>
       markState board3x3marks r c = Inr Flag \<and> (r, c) \<noteq> (0, 0) \<longrightarrow> isRevealed b' r c = Inr False"
    and questions: "\<forall>r c p. inBounds board3x3marks r c \<and> markState board3x3marks r c = Inr Question \<and>
       spreads board3x3marks (0, 0) p \<and> adjacent p (r, c) \<longrightarrow> isRevealed b' r c = Inr True"
    using revealCell_cascade [OF inv inb safe zero] by blast
  have "isRevealed b' 1 1 = Inr True"
    using questions q spreads.start [of board3x3marks "(0, 0)"] by blast
  moreover have "isRevealed b' 1 2 = Inr False"
    using flags f by auto
  ultimately show ?thesis
    using inv inb safe zero run r by auto
qed

subsection \<open>initialize\<close>

lemma reset_default: "reset x = Cell_default"
  by (simp add: reset_def Cell_default_def)

lemma resetLoop_cells:
  assumes "Board_inv b" "\<forall>p \<in> set ps. inBounds b (fst p) (snd p)"
  shows "\<exists>b'. resetLoop b ps = Inr b' \<and> Board_inv b' \<and> m_width b' = m_width b \<and>
    m_height b' = m_height b \<and> m_mineCount b' = m_mineCount b \<and>
    (\<forall>p. cellOf b' p = (if p \<in> set ps then Cell_default else cellOf b p))"
  using assms
proof (induction ps arbitrary: b)
  case Nil
  then show ?case by simp
next
  case (Cons p ps)
  obtain r c where p: "p = (r, c)" by (cases p)
  let ?b1 = "withCell b p Cell_default"
  from Cons.prems have inb: "inBounds b (fst p) (snd p)" by simp
  have step: "resetLoop b (p # ps) = resetLoop ?b1 ps"
    using Cons.prems(1) inb by (simp add: p updateCell_withCell reset_default)
  have inv1: "Board_inv ?b1" using Cons.prems(1) by (rule Board_inv_withCell)
  have "\<forall>x \<in> set ps. inBounds ?b1 (fst x) (snd x)" using Cons.prems(2) by simp
  from Cons.IH [OF inv1 this] obtain b' where run: "resetLoop ?b1 ps = Inr b'"
    and inv': "Board_inv b'" and dims: "m_width b' = m_width b" "m_height b' = m_height b"
      "m_mineCount b' = m_mineCount b"
    and cells: "\<And>x. cellOf b' x = (if x \<in> set ps then Cell_default else cellOf ?b1 x)"
    by auto
  have w: "cellOf ?b1 x = (if x = p then Cell_default else cellOf b x)" for x
    using Cons.prems(1) inb by (rule cellOf_withCell)
  have "cellOf b' x = (if x \<in> set (p # ps) then Cell_default else cellOf b x)" for x
    by (simp add: cells w)
  then show ?case
    using step run inv' dims by simp
qed

lemma cellOf_outside: "\<not> inBounds b (fst p) (snd p) \<Longrightarrow> cellOf b p = Cell_default"
  by (simp add: cellOf_def)

lemma resetLoop_all:
  assumes "Board_inv b"
  shows "\<exists>b'. resetLoop b (cellsInOrder b) = Inr b' \<and> Board_inv b' \<and> m_width b' = m_width b \<and>
    m_height b' = m_height b \<and> m_mineCount b' = m_mineCount b \<and>
    (\<forall>p. cellOf b' p = Cell_default)"
proof -
  obtain b' where run: "resetLoop b (cellsInOrder b) = Inr b'" and inv': "Board_inv b'"
    and dims: "m_width b' = m_width b" "m_height b' = m_height b" "m_mineCount b' = m_mineCount b"
    and cells: "\<And>p. cellOf b' p = (if p \<in> set (cellsInOrder b) then Cell_default else cellOf b p)"
    using resetLoop_cells [OF assms, of "cellsInOrder b"] by (auto simp: cellsInOrder_set)
  have "cellOf b' p = Cell_default" for p
    using cells [of p] cellOf_outside [of b p] by (simp add: cellsInOrder_set)
  then show ?thesis
    using run inv' dims by simp
qed

lemma smod_nonneg: "0 \<le> a \<Longrightarrow> 0 < m \<Longrightarrow> a smod m = a mod (m :: int)"
  by (cases "a = 0") (simp_all add: smod_int_alt_def)

lemma mineSet_finite: "finite (mineSet b)"
proof (rule finite_subset)
  show "mineSet b \<subseteq> set (cellsInOrder b)"
    by (auto simp: mineSet_def cellsInOrder_set cellOf_def Cell_default_def split: if_splits)
qed simp

lemma mineSet_setMine:
  assumes "Board_inv b" "inBounds b (fst p) (snd p)"
  shows "mineSet (withCell b p ((cellOf b p)\<lparr>m_hasMine := True\<rparr>)) = insert p (mineSet b)"
  using assms by (auto simp: mineSet_def cellOf_withCell)

lemma placeLoop_invariant:
  assumes "placeLoop rnd k placed b = Some y"
  shows "placePost placed b y"
proof (rule placeLoop.raw_induct [where P = "\<lambda>rnd k placed b y. placePost placed b y", OF _ assms])
  fix loop :: "(nat \<Rightarrow> nat) \<Rightarrow> nat \<Rightarrow> int \<Rightarrow> Board \<Rightarrow> (undefined_behaviour + Board) option"
    and rnd k placed b y
  assume IH: "\<And>rnd k placed b y. loop rnd k placed b = Some y \<Longrightarrow> placePost placed b y"
    and body: "(if placed < m_mineCount b
      then if m_height b = 0 then Some (Inl DivisionByZero)
           else if m_width b = 0 then Some (Inl DivisionByZero)
                else let rr = int (rnd k) smod m_height b;
                         cc = int (rnd (k + 1)) smod m_width b
                     in case cellAt b rr cc of Inl u \<Rightarrow> Some (Inl u)
                        | Inr x \<Rightarrow>
                            if \<not> m_hasMine x
                            then case setMine b rr cc True of
                                 Inl u \<Rightarrow> Some (Inl u)
                                 | Inr b' \<Rightarrow> loop rnd (k + 2) (placed + 1) b'
                            else loop rnd (k + 2) placed b
      else Some (Inr b)) = Some y"
  show "placePost placed b y"
    unfolding placePost_def
  proof (intro impI)
    assume inv: "Board_inv b" and w: "0 < m_width b" and h: "0 < m_height b"
      and card: "int (card (mineSet b)) = placed" and le: "placed \<le> m_mineCount b"
    show "\<exists>b'. y = Inr b' \<and> Board_inv b' \<and> m_width b' = m_width b \<and> m_height b' = m_height b \<and>
       m_mineCount b' = m_mineCount b \<and> int (card (mineSet b')) = m_mineCount b \<and>
       (\<forall>p. m_revealed (cellOf b' p) = m_revealed (cellOf b p) \<and>
            m_mark (cellOf b' p) = m_mark (cellOf b p))"
    proof (cases "placed < m_mineCount b")
      case False
      with body have "y = Inr b" by simp
      moreover from False le have "placed = m_mineCount b" by simp
      ultimately show ?thesis
        using inv card by simp
    next
      case True
      let ?rr = "int (rnd k) smod m_height b"
      let ?cc = "int (rnd (k + 1)) smod m_width b"
      let ?p = "(?rr, ?cc)"
      have inb: "inBounds b ?rr ?cc"
        using w h by (simp add: inBounds_def smod_nonneg)
      show ?thesis
      proof (cases "m_hasMine (cellOf b ?p)")
        case mine: True
        have "loop rnd (k + 2) placed b = Some y"
          using body True w h inv inb mine by (simp add: Let_def cellAt_cellOf)
        from IH [OF this] inv w h card le show ?thesis
          unfolding placePost_def by blast
      next
        case nomine: False
        let ?b1 = "withCell b ?p ((cellOf b ?p)\<lparr>m_hasMine := True\<rparr>)"
        have rec: "loop rnd (k + 2) (placed + 1) ?b1 = Some y"
          using body True w h inv inb nomine
          by (simp add: Let_def cellAt_cellOf setMine_def updateCell_withCell)
        have inv1: "Board_inv ?b1" using inv by (rule Board_inv_withCell)
        have "?p \<notin> mineSet b" using nomine by (simp add: mineSet_def)
        then have card1: "int (card (mineSet ?b1)) = placed + 1"
          using card mineSet_finite [of b] inv inb by (simp add: mineSet_setMine)
        have cells: "m_revealed (cellOf ?b1 x) = m_revealed (cellOf b x) \<and>
            m_mark (cellOf ?b1 x) = m_mark (cellOf b x)" for x
          using inv inb by (simp add: cellOf_withCell)
        from IH [OF rec] inv1 w h card1 True
        obtain b' where "y = Inr b'" "Board_inv b'" "m_width b' = m_width b"
          "m_height b' = m_height b" "m_mineCount b' = m_mineCount b"
          "int (card (mineSet b')) = m_mineCount b"
          "\<forall>p. m_revealed (cellOf b' p) = m_revealed (cellOf ?b1 p) \<and>
            m_mark (cellOf b' p) = m_mark (cellOf ?b1 p)"
          unfolding placePost_def by auto
        then show ?thesis
          using cells by simp
      qed
    qed
  qed
qed

lemma mineSet_isMine:
  assumes "Board_inv b"
  shows "{(r, c). inBounds b r c \<and> isMine b r c = Inr True} = mineSet b"
proof -
  have "(inBounds b r c \<and> isMine b r c = Inr True) = m_hasMine (cellOf b (r, c))" for r c
    using assms cellOf_outside [of b "(r, c)"]
    by (cases "inBounds b r c") (simp_all add: isMine_cellOf Cell_default_def)
  then show ?thesis
    by (auto simp: mineSet_def)
qed

text \<open>
  C3. On a board as the constructor builds it, in whatever state earlier rounds left it,
  with \<open>0 \<le> m_mineCount < m_width * m_height\<close>: when \<^verbatim>\<open>initialize\<close> returns, it
  returns normally, exactly \<^verbatim>\<open>m_mineCount\<close> cells of the grid are mined (every other
  cell is not), and every cell is hidden and unmarked. The dimensions are as before.
\<close>

theorem initialize_state:
  assumes "Board_inv b" "0 \<le> m_mineCount b" "m_mineCount b < m_width b * m_height b"
    "initialize b rnd = Some y"
  shows "\<exists>b'. y = Inr b' \<and> Board_inv b' \<and> m_width b' = m_width b \<and> m_height b' = m_height b \<and>
           m_mineCount b' = m_mineCount b \<and>
           int (card {(r, c). inBounds b' r c \<and> isMine b' r c = Inr True}) = m_mineCount b \<and>
           (\<forall>r c. inBounds b' r c \<longrightarrow>
              (isMine b' r c = Inr True \<or> isMine b' r c = Inr False) \<and>
              isRevealed b' r c = Inr False \<and> markState b' r c = Inr NoMark)"
proof -
  obtain b0 where reset: "resetLoop b (cellsInOrder b) = Inr b0" and inv0: "Board_inv b0"
    and dims0: "m_width b0 = m_width b" "m_height b0 = m_height b" "m_mineCount b0 = m_mineCount b"
    and cells0: "\<And>p. cellOf b0 p = Cell_default"
    using resetLoop_all [OF assms(1)] by blast
  from assms(4) reset have loop: "placeLoop rnd 0 0 b0 = Some y"
    by (simp add: initialize_def)
  have "0 \<le> m_width b" "0 \<le> m_height b"
    using assms(1) by (simp_all add: Board_inv_def)
  moreover have "0 < m_width b * m_height b"
    using assms(2,3) by simp
  ultimately have pos: "0 < m_width b0" "0 < m_height b0"
    unfolding dims0 by (simp_all add: zero_less_mult_iff)
  have "mineSet b0 = {}"
    by (simp add: mineSet_def cells0 Cell_default_def)
  then have "int (card (mineSet b0)) = 0" by simp
  with placeLoop_invariant [OF loop] inv0 pos assms(2) dims0
  obtain b' where y: "y = Inr b'" and inv': "Board_inv b'"
    and dims: "m_width b' = m_width b" "m_height b' = m_height b" "m_mineCount b' = m_mineCount b"
    and card: "int (card (mineSet b')) = m_mineCount b"
    and cells: "\<And>p. m_revealed (cellOf b' p) = m_revealed (cellOf b0 p) \<and>
            m_mark (cellOf b' p) = m_mark (cellOf b0 p)"
    unfolding placePost_def by auto
  have "(isMine b' r c = Inr True \<or> isMine b' r c = Inr False) \<and>
      isRevealed b' r c = Inr False \<and> markState b' r c = Inr NoMark"
    if "inBounds b' r c" for r c
    using that inv' cells [of "(r, c)"]
    by (simp add: isMine_cellOf isRevealed_cellOf markState_cellOf cells0 Cell_default_def)
  then show ?thesis
    using y inv' dims card mineSet_isMine [OF inv'] by simp
qed

text \<open>
  A new round on the 2 x 2 board: the generator yields 0, 0, 0, 0, 1, 1, so the second
  draw hits the cell of the first and is rejected.
\<close>

theorem initialize_state_witness:
  "Board_inv board2x2played \<and> 0 \<le> m_mineCount board2x2played \<and>
   m_mineCount board2x2played < m_width board2x2played * m_height board2x2played \<and>
   initialize board2x2played (\<lambda>k. k div 4) =
     Some (Inr (board2x2played\<lparr>m_cells := [[hiddenCell True, hiddenCell False],
                                           [hiddenCell False, hiddenCell True]]\<rparr>)) \<and>
   card {(r, c). inBounds (board2x2played\<lparr>m_cells := [[hiddenCell True, hiddenCell False],
                                           [hiddenCell False, hiddenCell True]]\<rparr>) r c \<and>
                 isMine (board2x2played\<lparr>m_cells := [[hiddenCell True, hiddenCell False],
                                           [hiddenCell False, hiddenCell True]]\<rparr>) r c = Inr True} = 2"
proof -
  have inv: "Board_inv board2x2played" by code_simp
  have count: "0 \<le> m_mineCount board2x2played"
    "m_mineCount board2x2played < m_width board2x2played * m_height board2x2played"
    "m_mineCount board2x2played = 2"
    by code_simp+
  have run: "initialize board2x2played (\<lambda>k. k div 4) =
     Some (Inr (board2x2played\<lparr>m_cells := [[hiddenCell True, hiddenCell False],
                                           [hiddenCell False, hiddenCell True]]\<rparr>))"
    by code_simp
  show ?thesis
    using initialize_state [OF inv count(1,2) run] inv count run by simp
qed

end
